theory Spec2Isabelle
  imports Main
begin

text \<open>
  A model of the Proto Markdown parser of \<^verbatim>\<open>src/parser/MarkdownParser.ts\<close> and of the
  syntax tree of \<^verbatim>\<open>src/parser/types.ts\<close>: the strings and the regular expressions
  of JavaScript that the parser uses, its patterns, and its functions
  \<^verbatim>\<open>parseInlineEmphasis\<close>, \<^verbatim>\<open>parseLine\<close>, \<^verbatim>\<open>parseCard\<close>, \<^verbatim>\<open>parseContainer\<close> and
  \<^verbatim>\<open>parse\<close>, each loop as a recursive function with its termination proof. The
  parser is then given a second time with the call stack and the reads of lines made
  explicit, so that what it throws is a value.
\<close>

section \<open>Strings\<close>

text \<open>
  A JavaScript string is modelled as a \<^typ>\<open>string\<close>: a list of 8-bit characters, each
  standing for the code unit of the same number. Code units above 255 are outside the
  model. The white space of \<^verbatim>\<open>String.prototype.trim\<close> and of the pattern
  \<^verbatim>\<open>\s\<close> is, in this range, TAB, LF, VT, FF, CR, SPACE and NBSP; the line
  terminators that the pattern \<^verbatim>\<open>.\<close> refuses are LF and CR.
\<close>

definition isLineTerminator :: "char \<Rightarrow> bool" where
  "isLineTerminator c = (c = CHR 0x0A \<or> c = CHR 0x0D)"

definition isSpace :: "char \<Rightarrow> bool" where
  "isSpace c = (c = CHR 0x09 \<or> c = CHR 0x0A \<or> c = CHR 0x0B \<or> c = CHR 0x0C \<or> c = CHR 0x0D
     \<or> c = CHR 0x20 \<or> c = CHR 0xA0)"

definition trim :: "string \<Rightarrow> string" where
  "trim s = rev (dropWhile isSpace (rev (dropWhile isSpace s)))"

text \<open>\<^verbatim>\<open>s.split(c)\<close> for a one-character separator: never the empty list.\<close>

fun split :: "char \<Rightarrow> string \<Rightarrow> string list" where
  "split c [] = [[]]"
| "split c (x # xs) =
     (if x = c then [] # split c xs
      else (case split c xs of [] \<Rightarrow> [[x]] | y # ys \<Rightarrow> (x # y) # ys))"

definition includesChar :: "string \<Rightarrow> char \<Rightarrow> bool" where
  "includesChar s c = (c \<in> set s)"

definition startsWith :: "string \<Rightarrow> string \<Rightarrow> bool" where
  "startsWith s p = (take (length p) s = p)"

text \<open>\<^verbatim>\<open>s.indexOf(c)\<close>: the first index of the character, or \<open>-1\<close>.\<close>

fun indexOf :: "string \<Rightarrow> char \<Rightarrow> int" where
  "indexOf [] c = -1"
| "indexOf (x # xs) c =
     (if x = c then 0 else (let k = indexOf xs c in if k = -1 then -1 else k + 1))"

text \<open>\<^verbatim>\<open>s.slice(a, b)\<close> for \<open>0 \<le> a\<close> and \<open>0 \<le> b\<close>.\<close>

definition slice :: "string \<Rightarrow> nat \<Rightarrow> nat \<Rightarrow> string" where
  "slice s a b = take (b - a) (drop a s)"

section \<open>Regular expressions\<close>

text \<open>
  The patterns of the parser are values of \<open>regex\<close>, run by a backtracking matcher that
  lists the ways to match in the order in which the JavaScript matcher tries them: the
  head of the list is the match JavaScript reports. A state is the input still to read
  and the groups captured so far (latest first). The constructors are those that the
  patterns of the parser need: one character of a class, the anchors \<^verbatim>\<open>^\<close> and
  \<^verbatim>\<open>$\<close> (no flag \<^verbatim>\<open>m\<close>), sequence, alternative, the quantifier \<^verbatim>\<open>*\<close> (greedy when
  its flag is \<open>True\<close>, lazy otherwise) and a capturing group. JavaScript clears the
  groups inside a quantifier at every round; the model does not, and the parser reads no
  group that stands inside a quantifier which can run more than once.
\<close>

datatype cclass = Lit char | Dot | Space | NoneOf "char list"

fun accepts :: "cclass \<Rightarrow> char \<Rightarrow> bool" where
  "accepts (Lit c) x = (x = c)"
| "accepts Dot x = (\<not> isLineTerminator x)"
| "accepts Space x = isSpace x"
| "accepts (NoneOf cs) x = (x \<notin> set cs)"

datatype regex =
    Atom cclass
  | Bol
  | Eol
  | Eps
  | Seq regex regex
  | Alt regex regex
  | Star bool regex
  | Group nat regex

type_synonym mstate = "string \<times> (nat \<times> string) list"

text \<open>
  A quantifier \<^verbatim>\<open>*\<close> runs its body any number of times, every round reading at
  least one character, so at most as many rounds as characters are left. The greedy
  quantifier tries one more round before stopping, the lazy one stops first.
\<close>

primrec iter :: "bool \<Rightarrow> (mstate \<Rightarrow> mstate list) \<Rightarrow> nat \<Rightarrow> mstate \<Rightarrow> mstate list" where
  "iter greedy f 0 st = [st]"
| "iter greedy f (Suc k) st =
     (let more = concat (map (iter greedy f k)
                   (filter (\<lambda>st'. length (fst st') < length (fst st)) (f st)))
      in if greedy then more @ [st] else st # more)"

text \<open>The first argument of \<open>run\<close> is the length of the whole input, for \<^verbatim>\<open>^\<close>.\<close>

primrec run :: "regex \<Rightarrow> nat \<Rightarrow> mstate \<Rightarrow> mstate list" where
  "run (Atom c) n st =
     (case fst st of [] \<Rightarrow> [] | x # xs \<Rightarrow> if accepts c x then [(xs, snd st)] else [])"
| "run Bol n st = (if length (fst st) = n then [st] else [])"
| "run Eol n st = (if fst st = [] then [st] else [])"
| "run Eps n st = [st]"
| "run (Seq r1 r2) n st = concat (map (run r2 n) (run r1 n st))"
| "run (Alt r1 r2) n st = run r1 n st @ run r2 n st"
| "run (Star greedy r) n st = iter greedy (run r n) (length (fst st)) st"
| "run (Group i r) n st =
     map (\<lambda>st'. (fst st', (i, take (length (fst st) - length (fst st')) (fst st)) # snd st'))
       (run r n st)"

text \<open>The quantifiers \<^verbatim>\<open>+\<close>, \<^verbatim>\<open>+?\<close>, \<^verbatim>\<open>?\<close> and \<^verbatim>\<open>{lo,hi}\<close>, and a sequence.\<close>

abbreviation Plus :: "regex \<Rightarrow> regex" where
  "Plus r \<equiv> Seq r (Star True r)"

abbreviation PlusLazy :: "regex \<Rightarrow> regex" where
  "PlusLazy r \<equiv> Seq r (Star False r)"

abbreviation Opt :: "regex \<Rightarrow> regex" where
  "Opt r \<equiv> Alt r Eps"

fun times :: "nat \<Rightarrow> nat \<Rightarrow> regex \<Rightarrow> regex" where
  "times lo 0 r = Eps"
| "times 0 (Suc hi) r = Opt (Seq r (times 0 hi r))"
| "times (Suc lo) (Suc hi) r = Seq r (times lo hi r)"

fun cat :: "regex list \<Rightarrow> regex" where
  "cat [] = Eps"
| "cat [r] = r"
| "cat (r # rs) = Seq r (cat rs)"

abbreviation chr :: "char \<Rightarrow> regex" where
  "chr c \<equiv> Atom (Lit c)"

fun lit :: "string \<Rightarrow> regex" where
  "lit [] = Eps"
| "lit [c] = chr c"
| "lit (c # cs) = Seq (chr c) (lit cs)"

text \<open>
  A match: the index where it starts, the text matched, the groups. \<open>search\<close> tries the
  start positions from left to right, as \<^verbatim>\<open>RegExp.prototype.exec\<close> does.
\<close>

record rmatch =
  index :: nat
  whole :: string
  groups :: "(nat \<times> string) list"

fun search :: "regex \<Rightarrow> nat \<Rightarrow> string \<Rightarrow> (string \<times> mstate) option" where
  "search r n [] = (case run r n ([], []) of [] \<Rightarrow> None | st # _ \<Rightarrow> Some ([], st))"
| "search r n (c # cs) =
     (case run r n (c # cs, []) of [] \<Rightarrow> search r n cs | st # _ \<Rightarrow> Some (c # cs, st))"

definition mkMatch :: "nat \<Rightarrow> string \<times> mstate \<Rightarrow> rmatch" where
  "mkMatch n found =
     \<lparr>index = n - length (fst found),
      whole = take (length (fst found) - length (fst (snd found))) (fst found),
      groups = snd (snd found)\<rparr>"

text \<open>\<^verbatim>\<open>s.match(r)\<close> for a pattern without the flag \<^verbatim>\<open>g\<close>.\<close>

definition match :: "string \<Rightarrow> regex \<Rightarrow> rmatch option" where
  "match s r = map_option (mkMatch (length s)) (search r (length s) s)"

text \<open>\<open>group mt i\<close> is \<^verbatim>\<open>mt[i]\<close>: \<open>None\<close> is JavaScript's \<^verbatim>\<open>undefined\<close>.\<close>

definition group :: "rmatch \<Rightarrow> nat \<Rightarrow> string option" where
  "group mt i = map_of (groups mt) i"

text \<open>
  A group that took no part in the match reads as \<^verbatim>\<open>undefined\<close>. Where the source
  reads a group as a string (\<^verbatim>\<open>mt[i]\<close> with no \<^verbatim>\<open>?.\<close>), the group is a
  mandatory part of its pattern; \<open>gstr\<close> is that reading.
\<close>

definition gstr :: "rmatch \<Rightarrow> nat \<Rightarrow> string" where
  "gstr mt i = (case group mt i of None \<Rightarrow> [] | Some s \<Rightarrow> s)"

lemma iter_len:
  assumes "\<And>a b. b \<in> set (f a) \<Longrightarrow> length (fst b) \<le> length (fst a)"
  shows "st' \<in> set (iter g f k st) \<Longrightarrow> length (fst st') \<le> length (fst st)"
proof (induction k arbitrary: st st')
  case 0
  then show ?case by simp
next
  case (Suc k)
  have "st' = st \<or> (\<exists>mid \<in> set (f st). length (fst mid) < length (fst st) \<and> st' \<in> set (iter g f k mid))"
    using Suc.prems by (auto simp: Let_def split: if_splits)
  then show ?case
  proof
    assume "st' = st"
    then show ?thesis by simp
  next
    assume "\<exists>mid \<in> set (f st). length (fst mid) < length (fst st) \<and> st' \<in> set (iter g f k mid)"
    then obtain mid where "length (fst mid) < length (fst st)" "st' \<in> set (iter g f k mid)"
      by blast
    with Suc.IH [of st' mid] show ?thesis by simp
  qed
qed

text \<open>More rounds than characters are left change nothing: the rounds never run out.\<close>

lemma iter_fuel: "length (fst st) \<le> k \<Longrightarrow> iter g f (Suc k) st = iter g f k st"
proof (induction k arbitrary: st)
  case 0
  then show ?case by (simp add: Let_def)
next
  case (Suc k)
  have "map (iter g f (Suc k)) (filter (\<lambda>st'. length (fst st') < length (fst st)) (f st))
      = map (iter g f k) (filter (\<lambda>st'. length (fst st') < length (fst st)) (f st))"
  proof (rule map_cong [OF refl])
    fix mid assume "mid \<in> set (filter (\<lambda>st'. length (fst st') < length (fst st)) (f st))"
    with Suc.prems have "length (fst mid) \<le> k" by simp
    then show "iter g f (Suc k) mid = iter g f k mid" by (rule Suc.IH)
  qed
  then show ?case by (simp only: iter.simps)
qed

lemma run_len: "st' \<in> set (run r n st) \<Longrightarrow> length (fst st') \<le> length (fst st)"
proof (induction r arbitrary: st st')
  case (Atom c)
  then show ?case by (cases "fst st") (auto split: if_splits)
next
  case (Seq r1 r2)
  then obtain mid where "mid \<in> set (run r1 n st)" "st' \<in> set (run r2 n mid)"
    by auto
  with Seq.IH [of mid st] Seq.IH(2) [of st' mid] show ?case by simp
next
  case (Star g r)
  have "st' \<in> set (iter g (run r n) (length (fst st)) st)"
    using Star.prems by simp
  then show ?case
    using Star.IH by (rule iter_len [rotated]) 
qed (auto split: if_splits)

lemma search_len:
  "search r n s = Some (start, st') \<Longrightarrow> length start \<le> length s \<and> length (fst st') \<le> length start"
proof (induction s)
  case Nil
  show ?case
  proof (cases "run r n ([], [])")
    case Nil
    with Nil.prems show ?thesis by simp
  next
    case (Cons a as)
    then have "a \<in> set (run r n ([], []))" by simp
    from run_len [OF this] Cons Nil.prems show ?thesis by auto
  qed
next
  case (Cons c cs)
  show ?case
  proof (cases "run r n (c # cs, [])")
    case Nil
    with Cons show ?thesis by simp
  next
    case (Cons a as)
    then have "a \<in> set (run r n (c # cs, []))" by simp
    from run_len [OF this] Cons Cons.prems show ?thesis by auto
  qed
qed

text \<open>
  \<^verbatim>\<open>[...s.matchAll(r)]\<close> and \<^verbatim>\<open>s.match(r)\<close> for a pattern with the flag
  \<^verbatim>\<open>g\<close>: the next search starts where the last match ended, one character further
  after an empty match.
\<close>

function matchAllFrom :: "regex \<Rightarrow> nat \<Rightarrow> string \<Rightarrow> rmatch list" where
  "matchAllFrom r n s =
     (case search r n s of
        None \<Rightarrow> []
      | Some found \<Rightarrow>
          mkMatch n found #
          (if length (fst (snd found)) < length (fst found) then matchAllFrom r n (fst (snd found))
           else (case fst (snd found) of [] \<Rightarrow> [] | _ # t \<Rightarrow> matchAllFrom r n t)))"
  by pat_completeness auto

lemma matchAllFrom_terminates: "All matchAllFrom_dom"
proof (relation "measure (\<lambda>(r, n, s). length s)")
  show "wf (measure (\<lambda>(r, n, s). length s))" by simp
next
  fix r n s found
  assume "search r n s = Some found" "length (fst (snd found)) < length (fst found)"
  with search_len [of r n s "fst found" "snd found"]
  show "((r, n, fst (snd found)), (r, n, s)) \<in> measure (\<lambda>(r, n, s). length s)" by simp
next
  fix r n s found c t
  assume "search r n s = Some found" "fst (snd found) = c # t"
  with search_len [of r n s "fst found" "snd found"]
  show "((r, n, t), (r, n, s)) \<in> measure (\<lambda>(r, n, s). length s)" by simp
qed

termination matchAllFrom
  by (rule matchAllFrom_terminates)

declare matchAllFrom.simps [simp del]

definition matchAll :: "string \<Rightarrow> regex \<Rightarrow> rmatch list" where
  "matchAll s r = matchAllFrom r (length s) s"

lemma search_mem: "search r n s = Some (start, st') \<Longrightarrow> st' \<in> set (run r n (start, []))"
  by (induction s) (auto split: list.splits)

lemma match_progress:
  assumes "match s (Seq Bol (Seq (Atom a) r)) = Some mt"
  shows "0 < length (whole mt)"
proof -
  from assms obtain start st' where
    found: "search (Seq Bol (Seq (Atom a) r)) (length s) s = Some (start, st')"
    and mt: "mt = mkMatch (length s) (start, st')"
    by (auto simp: match_def)
  from search_mem [OF found]
  obtain mid where "mid \<in> set (run (Atom a) (length s) (start, []))"
    and "st' \<in> set (run r (length s) mid)"
    by (auto split: if_splits)
  then have "length (fst mid) < length start" "length (fst st') \<le> length (fst mid)"
    using run_len [of st' r "length s" mid] by (auto split: list.splits if_splits)
  then show ?thesis by (simp add: mt mkMatch_def)
qed

section \<open>The syntax tree (types.ts)\<close>

text \<open>
  \<^verbatim>\<open>MarkdownNode\<close> is one interface with a \<^verbatim>\<open>type\<close> tag and optional fields. It is
  modelled as a datatype with one constructor for every shape of object that the parser
  builds or that the interface declares, carrying the fields of that shape; an optional
  field is an \<open>option\<close>. \<open>nodeType\<close> is the tag.
\<close>

datatype NodeType =
    header | input | textarea | dropdown | button | text_t | container | card | table
  | checkbox | radiogroup | grid | div_t | bold | italic | image_t | workflow | screen

datatype InputType = text_input | password

datatype Variant = default_v | outline

datatype MarkdownNode =
    Header nat "MarkdownNode list"
  | Input string InputType
  | Textarea string
  | Dropdown string "string list option"
  | Checkbox string
  | Radiogroup string "string list"
  | Button string Variant "string option" "string option"
  | ImageNode string string
  | Container "MarkdownNode list"
  | Card "MarkdownNode list option" "MarkdownNode list"
  | Grid string "MarkdownNode list"
  | Div "string option" "MarkdownNode list"
  | Table "string list" "string list list"
  | Text "MarkdownNode list"
  | TextContent string
  | Bold string
  | BoldChildren "MarkdownNode list"
  | Italic string
  | Workflow "string option" "MarkdownNode list"
  | Screen string "MarkdownNode list"

text \<open>
  The fields, in the order of the constructors' arguments: \<open>Header level children\<close>,
  \<open>Input label inputType\<close>, \<open>Textarea label\<close>, \<open>Dropdown label options\<close>,
  \<open>Checkbox label\<close>, \<open>Radiogroup label options\<close>,
  \<open>Button content variant className navigateTo\<close>, \<open>ImageNode alt src\<close>,
  \<open>Container children\<close>, \<open>Card titleChildren children\<close>, \<open>Grid gridConfig children\<close>,
  \<open>Div className children\<close>, \<open>Table headers rows\<close>, \<open>Text children\<close> and
  \<open>TextContent content\<close> (both of type \<^verbatim>\<open>text\<close>), \<open>Bold content\<close> and
  \<open>BoldChildren children\<close> (both of type \<^verbatim>\<open>bold\<close>), \<open>Italic content\<close>,
  \<open>Workflow initialScreen children\<close>, \<open>Screen id children\<close>.
\<close>

fun nodeType :: "MarkdownNode \<Rightarrow> NodeType" where
  "nodeType (Header _ _) = header"
| "nodeType (Input _ _) = input"
| "nodeType (Textarea _) = textarea"
| "nodeType (Dropdown _ _) = dropdown"
| "nodeType (Checkbox _) = checkbox"
| "nodeType (Radiogroup _ _) = radiogroup"
| "nodeType (Button _ _ _ _) = button"
| "nodeType (ImageNode _ _) = image_t"
| "nodeType (Container _) = container"
| "nodeType (Card _ _) = card"
| "nodeType (Grid _ _) = grid"
| "nodeType (Div _ _) = div_t"
| "nodeType (Table _ _) = table"
| "nodeType (Text _) = text_t"
| "nodeType (TextContent _) = text_t"
| "nodeType (Bold _) = bold"
| "nodeType (BoldChildren _) = bold"
| "nodeType (Italic _) = italic"
| "nodeType (Workflow _ _) = workflow"
| "nodeType (Screen _ _) = screen"

fun navigateTo :: "MarkdownNode \<Rightarrow> string option" where
  "navigateTo (Button _ _ _ target) = target"
| "navigateTo _ = None"

fun initialScreen :: "MarkdownNode \<Rightarrow> string option" where
  "initialScreen (Workflow initial _) = initial"
| "initialScreen _ = None"

record ParserOptions =
  strict :: bool
  preserveWhitespace :: bool

section \<open>The patterns of MarkdownParser.ts\<close>

abbreviation ws :: regex where
  "ws \<equiv> Atom Space"

abbreviation dot :: regex where
  "dot \<equiv> Atom Dot"

text \<open>\<^verbatim>\<open>/^_\*(.+?)\*_/\<close>, \<^verbatim>\<open>/^\*(.+?)\*/\<close> and \<^verbatim>\<open>/^_(.+?)_/\<close>\<close>

definition boldItalicRe :: regex where
  "boldItalicRe = cat [Bol, chr CHR ''_'', chr CHR ''*'', Group 1 (PlusLazy dot),
     chr CHR ''*'', chr CHR ''_'']"

definition boldRe :: regex where
  "boldRe = cat [Bol, chr CHR ''*'', Group 1 (PlusLazy dot), chr CHR ''*'']"

definition italicRe :: regex where
  "italicRe = cat [Bol, chr CHR ''_'', Group 1 (PlusLazy dot), chr CHR ''_'']"

text \<open>\<^verbatim>\<open>/^\[--\s*(.*)$/\<close>, \<^verbatim>\<open>/^\[grid\s+(.*)$/\<close> and \<^verbatim>\<open>/^\[\s*(.*)$/\<close>\<close>

definition cardRe :: regex where
  "cardRe = cat [Bol, lit ''[--'', Star True ws, Group 1 (Star True dot), Eol]"

definition gridRe :: regex where
  "gridRe = cat [Bol, lit ''[grid'', Plus ws, Group 1 (Star True dot), Eol]"

definition divRe :: regex where
  "divRe = cat [Bol, chr CHR ''['', Star True ws, Group 1 (Star True dot), Eol]"

text \<open>\<^verbatim>\<open>/^(#{1,6})\s+(.+)$/\<close>\<close>

definition headerRe :: regex where
  "headerRe = cat [Bol, Group 1 (times 1 6 (chr CHR ''#'')), Plus ws, Group 2 (Plus dot), Eol]"

text \<open>\<^verbatim>\<open>/(.+?)\s+(___|\|___\||__\*|__>(?:\s*\[[^\]]+\])?|__\[\])/g\<close>\<close>

definition fieldPattern :: regex where
  "fieldPattern = cat [Group 1 (PlusLazy dot), Plus ws,
     Group 2 (Alt (lit ''___'') (Alt (lit ''|___|'') (Alt (lit ''__*'')
       (Alt (Seq (lit ''__>'')
               (Opt (cat [Star True ws, chr CHR ''['', Plus (Atom (NoneOf '']'')), chr CHR '']''])))
            (lit ''__[]'')))))]"

text \<open>\<^verbatim>\<open>/\[([^\]]+)\]/\<close>\<close>

definition optionsRe :: regex where
  "optionsRe = cat [chr CHR ''['', Group 1 (Plus (Atom (NoneOf '']''))), chr CHR '']'']"

text \<open>
  \<^verbatim>\<open>/^(.+?)\s+__\*$/\<close>, \<^verbatim>\<open>/^(.+?)\s+\|___\|$/\<close>, \<^verbatim>\<open>/^(.+?)\s+___$/\<close>,
  \<^verbatim>\<open>/^(.+?)\s+__\[\]$/\<close>
\<close>

definition passwordRe :: regex where
  "passwordRe = cat [Bol, Group 1 (PlusLazy dot), Plus ws, lit ''__*'', Eol]"

definition textareaRe :: regex where
  "textareaRe = cat [Bol, Group 1 (PlusLazy dot), Plus ws, lit ''|___|'', Eol]"

definition inputRe :: regex where
  "inputRe = cat [Bol, Group 1 (PlusLazy dot), Plus ws, lit ''___'', Eol]"

definition checkboxRe :: regex where
  "checkboxRe = cat [Bol, Group 1 (PlusLazy dot), Plus ws, lit ''__[]'', Eol]"

text \<open>
  \<^verbatim>\<open>/^(.+?)\s+__\(\)\s+\[(.+?)\]$/\<close>, \<^verbatim>\<open>/^(.+?)\s+__>\s+\[(.+?)\]$/\<close> and
  \<^verbatim>\<open>/^(.+?)\s+__>$/\<close>
\<close>

definition radioGroupRe :: regex where
  "radioGroupRe = cat [Bol, Group 1 (PlusLazy dot), Plus ws, lit ''__()'', Plus ws,
     chr CHR ''['', Group 2 (PlusLazy dot), chr CHR '']'', Eol]"

definition dropdownWithOptionsRe :: regex where
  "dropdownWithOptionsRe = cat [Bol, Group 1 (PlusLazy dot), Plus ws, lit ''__>'', Plus ws,
     chr CHR ''['', Group 2 (PlusLazy dot), chr CHR '']'', Eol]"

definition dropdownRe :: regex where
  "dropdownRe = cat [Bol, Group 1 (PlusLazy dot), Plus ws, lit ''__>'', Eol]"

text \<open>\<^verbatim>\<open>/^!\[([^\]]*)\]\(([^)]+)\)$/\<close>\<close>

definition imageRe :: regex where
  "imageRe = cat [Bol, lit ''!['', Group 1 (Star True (Atom (NoneOf '']''))), lit ''](''  ,
     Group 2 (Plus (Atom (NoneOf '')''))), chr CHR '')'', Eol]"

text \<open>
  \<^verbatim>\<open>/^(\[\(?[^\[\]|]+\)?\]\s*)+$/\<close>, \<^verbatim>\<open>/\[(\(?)[^\[\]|]+?(\)?)\]/g\<close> and
  \<^verbatim>\<open>/\[(\(?)(.+?)(\)?)\]/\<close>
\<close>

definition multiButtonRe :: regex where
  "multiButtonRe = cat [Bol,
     Plus (Group 1 (cat [chr CHR ''['', Opt (chr CHR ''(''), Plus (Atom (NoneOf ''[]|'')),
                         Opt (chr CHR '')''), chr CHR '']'', Star True ws])),
     Eol]"

definition buttonsRe :: regex where
  "buttonsRe = cat [chr CHR ''['', Group 1 (Opt (chr CHR ''('')), PlusLazy (Atom (NoneOf ''[]|'')),
     Group 2 (Opt (chr CHR '')'')), chr CHR '']'']"

definition innerRe :: regex where
  "innerRe = cat [chr CHR ''['', Group 1 (Opt (chr CHR ''('')), Group 2 (PlusLazy dot),
     Group 3 (Opt (chr CHR '')'')), chr CHR '']'']"

text \<open>
  \<^verbatim>\<open>/^\[\((.+?)\)(?:\s*\|\s*(.+))?\]$/\<close> and \<^verbatim>\<open>/^\[([^|]+?)(?:\s*\|\s*(.+))?\]$/\<close>
\<close>

definition defaultButtonRe :: regex where
  "defaultButtonRe = cat [Bol, lit ''[('', Group 1 (PlusLazy dot), chr CHR '')'',
     Opt (cat [Star True ws, chr CHR ''|'', Star True ws, Group 2 (Plus dot)]),
     chr CHR '']'', Eol]"

definition buttonRe :: regex where
  "buttonRe = cat [Bol, chr CHR ''['', Group 1 (PlusLazy (Atom (NoneOf ''|''))),
     Opt (cat [Star True ws, chr CHR ''|'', Star True ws, Group 2 (Plus dot)]),
     chr CHR '']'', Eol]"

section \<open>parseInlineEmphasis\<close>

lemma emphasis_progress:
  assumes "match s boldItalicRe = Some mt \<or> match s boldRe = Some mt \<or> match s italicRe = Some mt"
  shows "0 < length (whole mt)"
  using assms match_progress [of s] by (auto simp: boldItalicRe_def boldRe_def italicRe_def)

text \<open>
  One round of the loop of \<^verbatim>\<open>parseInlineEmphasis\<close>, from the variables \<open>position\<close>
  and \<open>nodes\<close> to their values after the round; \<open>remaining\<close> never changes.
\<close>

definition inlineStep :: "string \<Rightarrow> nat \<Rightarrow> MarkdownNode list \<Rightarrow> nat \<times> MarkdownNode list" where
  "inlineStep remaining position nodes =
     (case match (drop position remaining) boldItalicRe of
        Some boldItalicMatch \<Rightarrow>
          (position + length (whole boldItalicMatch),
           nodes @ [BoldChildren [Italic (gstr boldItalicMatch 1)]])
      | None \<Rightarrow>
     (case match (drop position remaining) boldRe of
        Some boldMatch \<Rightarrow>
          (position + length (whole boldMatch), nodes @ [Bold (gstr boldMatch 1)])
      | None \<Rightarrow>
     (case match (drop position remaining) italicRe of
        Some italicMatch \<Rightarrow>
          (position + length (whole italicMatch), nodes @ [Italic (gstr italicMatch 1)])
      | None \<Rightarrow>
     (let nextAsterisk = indexOf (drop position remaining) CHR ''*'';
          nextUnderscore = indexOf (drop position remaining) CHR ''_'';
          nextMarker =
            (if nextAsterisk \<noteq> -1 \<and> nextUnderscore \<noteq> -1 then min nextAsterisk nextUnderscore
             else if nextAsterisk \<noteq> -1 then nextAsterisk
             else if nextUnderscore \<noteq> -1 then nextUnderscore
             else -1);
          textEnd =
            (if nextMarker = -1 then length remaining else position + nat nextMarker)
      in if textEnd > position then
           (textEnd, nodes @ [TextContent (slice remaining position textEnd)])
         else
           (position + 1, nodes @ [TextContent (slice remaining position (position + 1))])))))"

lemma inlineStep_progress: "position < fst (inlineStep remaining position nodes)"
proof -
  have "0 < length (whole mt)"
    if "match (drop position remaining) boldItalicRe = Some mt
      \<or> match (drop position remaining) boldRe = Some mt
      \<or> match (drop position remaining) italicRe = Some mt" for mt
    using that by (rule emphasis_progress)
  then show ?thesis
    by (auto simp: inlineStep_def Let_def split: option.splits)
qed

function inlineLoop :: "string \<Rightarrow> nat \<Rightarrow> MarkdownNode list \<Rightarrow> MarkdownNode list" where
  "inlineLoop remaining position nodes =
     (if position < length remaining then
        (let next = inlineStep remaining position nodes
         in inlineLoop remaining (fst next) (snd next))
      else nodes)"
  by pat_completeness auto

lemma inlineLoop_terminates: "All inlineLoop_dom"
proof (relation "measure (\<lambda>(remaining, position, nodes). length remaining - position)")
  show "wf (measure (\<lambda>(remaining, position, nodes). length remaining - position))"
    by simp
next
  fix remaining :: string and position :: nat and nodes nxt
  assume "position < length remaining" "nxt = inlineStep remaining position nodes"
  then show "((remaining, fst nxt, snd nxt), (remaining, position, nodes))
      \<in> measure (\<lambda>(remaining, position, nodes). length remaining - position)"
    using inlineStep_progress [of position remaining nodes]
    by (cases "inlineStep remaining position nodes") (auto intro!: diff_less_mono2)
qed

termination inlineLoop
  by (rule inlineLoop_terminates)

declare inlineLoop.simps [simp del]

definition parseInlineEmphasis :: "string \<Rightarrow> MarkdownNode list" where
  "parseInlineEmphasis text = inlineLoop text 0 []"

section \<open>parseLine\<close>

text \<open>\<^verbatim>\<open>s.split(",").map((opt) => opt.trim()).filter((opt) => opt.length > 0)\<close>\<close>

definition splitTrim :: "char \<Rightarrow> string \<Rightarrow> string list" where
  "splitTrim c s = filter (\<lambda>opt. length opt > 0) (map trim (split c s))"

text \<open>The callback of \<^verbatim>\<open>fieldMatches.map\<close>: one node for a label and its marker.\<close>

definition fieldNode :: "rmatch \<Rightarrow> MarkdownNode" where
  "fieldNode mt =
     (let label = trim (gstr mt 1); marker = gstr mt 2
      in if marker = ''__*'' then Input label password
         else if marker = ''|___|'' then Textarea label
         else if marker = ''__[]'' then Checkbox label
         else if startsWith marker ''__>'' then
           (case match marker optionsRe of
              Some optionsMatch \<Rightarrow> Dropdown label (Some (splitTrim CHR '','' (gstr optionsMatch 1)))
            | None \<Rightarrow> Dropdown label None)
         else Input label text_input)"

text \<open>The callback of \<^verbatim>\<open>buttons.map\<close>.\<close>

definition buttonNode :: "string \<Rightarrow> MarkdownNode" where
  "buttonNode btn =
     (case match btn innerRe of
        Some innerMatch \<Rightarrow>
          (let isDefault = (gstr innerMatch 1 = ''('' \<and> gstr innerMatch 3 = '')'');
               content = gstr innerMatch 2
           in Button content (if isDefault then default_v else outline) None None)
      | None \<Rightarrow> Button (slice btn 1 (length btn - 1)) outline None None)"

text \<open>
  \<^verbatim>\<open>mt[2]?.trim()\<close> followed by \<^verbatim>\<open>...(className && { className })\<close>: the field
  is there when the group took part and is not empty once trimmed.
\<close>

definition classNameOf :: "rmatch \<Rightarrow> string option" where
  "classNameOf mt =
     (case group mt 2 of
        None \<Rightarrow> None
      | Some c \<Rightarrow> if trim c = [] then None else Some (trim c))"

definition parseLine :: "string \<Rightarrow> MarkdownNode option" where
  "parseLine line =
     (case match line headerRe of
        Some headerMatch \<Rightarrow>
          Some (Header (length (gstr headerMatch 1)) (parseInlineEmphasis (gstr headerMatch 2)))
      | None \<Rightarrow>
     (let fieldMatches = matchAll line fieldPattern
      in if length fieldMatches > 1 then Some (Container (map fieldNode fieldMatches))
         else
     (case match line passwordRe of
        Some passwordMatch \<Rightarrow> Some (Input (gstr passwordMatch 1) password)
      | None \<Rightarrow>
     (case match line textareaRe of
        Some textareaMatch \<Rightarrow> Some (Textarea (gstr textareaMatch 1))
      | None \<Rightarrow>
     (case match line inputRe of
        Some inputMatch \<Rightarrow> Some (Input (gstr inputMatch 1) text_input)
      | None \<Rightarrow>
     (case match line checkboxRe of
        Some checkboxMatch \<Rightarrow> Some (Checkbox (gstr checkboxMatch 1))
      | None \<Rightarrow>
     (case match line radioGroupRe of
        Some radioGroupMatch \<Rightarrow>
          Some (Radiogroup (gstr radioGroupMatch 1) (splitTrim CHR '','' (gstr radioGroupMatch 2)))
      | None \<Rightarrow>
     (case match line dropdownWithOptionsRe of
        Some dropdownWithOptionsMatch \<Rightarrow>
          Some (Dropdown (gstr dropdownWithOptionsMatch 1)
                  (Some (splitTrim CHR '','' (gstr dropdownWithOptionsMatch 2))))
      | None \<Rightarrow>
     (case match line dropdownRe of
        Some dropdownMatch \<Rightarrow> Some (Dropdown (gstr dropdownMatch 1) None)
      | None \<Rightarrow>
     (case match line imageRe of
        Some imageMatch \<Rightarrow> Some (ImageNode (gstr imageMatch 1) (gstr imageMatch 2))
      | None \<Rightarrow>
     (let multiButtonMatch = match line multiButtonRe;
          buttons = map whole (matchAll line buttonsRe)
      in if multiButtonMatch \<noteq> None \<and> length buttons > 1 then
           Some (Container (map buttonNode buttons))
         else
     (case match line defaultButtonRe of
        Some defaultButtonMatch \<Rightarrow>
          Some (Button (gstr defaultButtonMatch 1) default_v (classNameOf defaultButtonMatch) None)
      | None \<Rightarrow>
     (case match line buttonRe of
        Some buttonMatch \<Rightarrow>
          Some (Button (trim (gstr buttonMatch 1)) outline (classNameOf buttonMatch) None)
      | None \<Rightarrow>
          Some (Text (parseInlineEmphasis line)))))))))))))))"

section \<open>parseCard and parseContainer\<close>

text \<open>
  \<^verbatim>\<open>this.options.preserveWhitespace ? lines[i] : lines[i].trim()\<close>, read only at an
  index below \<^verbatim>\<open>lines.length\<close>.
\<close>

definition lineAt :: "ParserOptions \<Rightarrow> string list \<Rightarrow> nat \<Rightarrow> string" where
  "lineAt opts lines i = (if preserveWhitespace opts then lines ! i else trim (lines ! i))"

text \<open>\<^verbatim>\<open>s || undefined\<close>\<close>

definition orUndefined :: "string \<Rightarrow> string option" where
  "orUndefined s = (if s = [] then None else Some s)"

datatype ContainerType = grid_type | div_type

text \<open>
  Each of the two functions is a loop over the lines after the opener; the loops are
  \<open>cardLoop\<close> and \<open>containerLoop\<close>, with the variables \<open>i\<close>, \<open>depth\<close> and the children
  collected so far, and they return the children and the index where they stopped. A
  nested opener calls \<open>parseCard\<close> or \<open>parseContainer\<close> at the current index and
  goes on at the index that call returns.
\<close>

function parseCard :: "ParserOptions \<Rightarrow> string list \<Rightarrow> nat \<Rightarrow> string option \<Rightarrow> MarkdownNode \<times> nat"
  and cardLoop :: "ParserOptions \<Rightarrow> string list \<Rightarrow> nat \<Rightarrow> nat \<Rightarrow> MarkdownNode list \<Rightarrow> MarkdownNode list \<times> nat"
  and parseContainer :: "ParserOptions \<Rightarrow> string list \<Rightarrow> nat \<Rightarrow> ContainerType \<Rightarrow> string \<Rightarrow> MarkdownNode \<times> nat"
  and containerLoop :: "ParserOptions \<Rightarrow> string list \<Rightarrow> nat \<Rightarrow> nat \<Rightarrow> MarkdownNode list \<Rightarrow> MarkdownNode list \<times> nat"
where
  "parseCard opts lines startIndex title =
     (let done = cardLoop opts lines (startIndex + 1) 1 []
      in (Card (case title of
                  None \<Rightarrow> None
                | Some t \<Rightarrow> if t = [] then None else Some (parseInlineEmphasis t))
               (fst done),
          snd done + 1))"
| "cardLoop opts lines i depth cardChildren =
     (if i < length lines \<and> depth > 0 then
        (let cardLine = lineAt opts lines i;
             depth' = (if cardLine = ''--]'' then depth - 1 else depth)
         in if cardLine = ''--]'' \<and> depth' = 0 then (cardChildren, i)
            else if match cardLine cardRe \<noteq> None then
              (let nestedTitle = (case match cardLine cardRe of
                                    None \<Rightarrow> None
                                  | Some mt \<Rightarrow> orUndefined (gstr mt 1));
                   result = parseCard opts lines i nestedTitle
               in cardLoop opts lines (snd result) depth' (cardChildren @ [fst result]))
            else if match cardLine gridRe \<noteq> None then
              (let nestedConfig = (case match cardLine gridRe of
                                     None \<Rightarrow> []
                                   | Some mt \<Rightarrow> gstr mt 1);
                   result = parseContainer opts lines i grid_type nestedConfig
               in cardLoop opts lines (snd result) depth' (cardChildren @ [fst result]))
            else if match cardLine divRe \<noteq> None \<and> \<not> includesChar cardLine CHR '']'' then
              (let nestedConfig = (case match cardLine divRe of
                                     None \<Rightarrow> []
                                   | Some mt \<Rightarrow> gstr mt 1);
                   result = parseContainer opts lines i div_type nestedConfig
               in cardLoop opts lines (snd result) depth' (cardChildren @ [fst result]))
            else
              cardLoop opts lines (i + 1) depth'
                (if cardLine \<noteq> [] then
                   (case parseLine cardLine of
                      Some childNode \<Rightarrow> cardChildren @ [childNode]
                    | None \<Rightarrow> cardChildren)
                 else cardChildren))
      else (cardChildren, i))"
| "parseContainer opts lines startIndex type config =
     (let done = containerLoop opts lines (startIndex + 1) 1 []
      in (case type of
            grid_type \<Rightarrow> Grid config (fst done)
          | div_type \<Rightarrow> Div (if config \<noteq> [] then Some config else None) (fst done),
          snd done + 1))"
| "containerLoop opts lines i depth containerChildren =
     (if i < length lines \<and> depth > 0 then
        (let containerLine = lineAt opts lines i;
             depth' = (if containerLine = '']'' then depth - 1 else depth)
         in if containerLine = '']'' \<and> depth' = 0 then (containerChildren, i)
            else if match containerLine cardRe \<noteq> None then
              (let nestedTitle = (case match containerLine cardRe of
                                    None \<Rightarrow> None
                                  | Some mt \<Rightarrow> orUndefined (gstr mt 1));
                   result = parseCard opts lines i nestedTitle
               in containerLoop opts lines (snd result) depth' (containerChildren @ [fst result]))
            else if match containerLine gridRe \<noteq> None then
              (let nestedConfig = (case match containerLine gridRe of
                                     None \<Rightarrow> []
                                   | Some mt \<Rightarrow> gstr mt 1);
                   result = parseContainer opts lines i grid_type nestedConfig
               in containerLoop opts lines (snd result) depth' (containerChildren @ [fst result]))
            else if match containerLine divRe \<noteq> None \<and> \<not> includesChar containerLine CHR '']'' then
              (let nestedConfig = (case match containerLine divRe of
                                     None \<Rightarrow> []
                                   | Some mt \<Rightarrow> gstr mt 1);
                   result = parseContainer opts lines i div_type nestedConfig
               in containerLoop opts lines (snd result) depth' (containerChildren @ [fst result]))
            else
              containerLoop opts lines (i + 1) depth'
                (if containerLine \<noteq> [] then
                   (case parseLine containerLine of
                      Some childNode \<Rightarrow> containerChildren @ [childNode]
                    | None \<Rightarrow> containerChildren)
                 else containerChildren))
      else (containerChildren, i))"
  by pat_completeness auto

text \<open>
  Termination: a loop goes on at a greater index, because every nested call returns an
  index beyond its opener. That is first shown for the arguments on which the functions
  are defined, then used to show that they are defined everywhere.
\<close>

lemma bounds_partial:
  "parseCard_cardLoop_parseContainer_containerLoop_dom (Inl (Inl (opts, lines, startIndex, title)))
     \<Longrightarrow> startIndex < snd (parseCard opts lines startIndex title)"
  "parseCard_cardLoop_parseContainer_containerLoop_dom (Inl (Inr (opts, lines, i, depth, cs)))
     \<Longrightarrow> i \<le> snd (cardLoop opts lines i depth cs)"
  "parseCard_cardLoop_parseContainer_containerLoop_dom (Inr (Inl (opts, lines, startIndex, type, config)))
     \<Longrightarrow> startIndex < snd (parseContainer opts lines startIndex type config)"
  "parseCard_cardLoop_parseContainer_containerLoop_dom (Inr (Inr (opts, lines, i, depth, cs)))
     \<Longrightarrow> i \<le> snd (containerLoop opts lines i depth cs)"
proof (induct rule: parseCard_cardLoop_parseContainer_containerLoop.pinduct)
  case (1 opts lines startIndex title)
  then show ?case by (simp add: parseCard.psimps Let_def)
next
  case (2 opts lines i depth cardChildren)
  note dom = 2(1) and IH = 2(2-)
  let ?f = "cardLoop opts lines i depth cardChildren"
  show ?case
  proof (cases "i < length lines \<and> 0 < depth")
    case False
    then have "?f = (cardChildren, i)"
      by (subst cardLoop.psimps [OF dom]) (simp only: if_False)
    then show ?thesis by simp
  next
    case run: True
    define x where x: "x = lineAt opts lines i"
    define xa where xa: "xa = (if x = ''--]'' then depth - 1 else depth)"
    have unf: "?f =
      (if x = ''--]'' \<and> xa = 0 then (cardChildren, i)
       else if match x cardRe \<noteq> None then
         cardLoop opts lines
           (snd (parseCard opts lines i (case match x cardRe of None \<Rightarrow> None | Some mt \<Rightarrow> orUndefined (gstr mt 1)))) xa
           (cardChildren @ [fst (parseCard opts lines i (case match x cardRe of None \<Rightarrow> None | Some mt \<Rightarrow> orUndefined (gstr mt 1)))])
       else if match x gridRe \<noteq> None then
         cardLoop opts lines
           (snd (parseContainer opts lines i grid_type (case match x gridRe of None \<Rightarrow> [] | Some mt \<Rightarrow> gstr mt 1))) xa
           (cardChildren @ [fst (parseContainer opts lines i grid_type (case match x gridRe of None \<Rightarrow> [] | Some mt \<Rightarrow> gstr mt 1))])
       else if match x divRe \<noteq> None \<and> \<not> includesChar x CHR '']'' then
         cardLoop opts lines
           (snd (parseContainer opts lines i div_type (case match x divRe of None \<Rightarrow> [] | Some mt \<Rightarrow> gstr mt 1))) xa
           (cardChildren @ [fst (parseContainer opts lines i div_type (case match x divRe of None \<Rightarrow> [] | Some mt \<Rightarrow> gstr mt 1))])
       else cardLoop opts lines (i + 1) xa
              (if x \<noteq> [] then (case parseLine x of Some childNode \<Rightarrow> cardChildren @ [childNode] | None \<Rightarrow> cardChildren)
               else cardChildren))"
      by (subst cardLoop.psimps [OF dom]) (simp only: run if_True Let_def x xa simp_thms)
    show ?thesis
    proof (cases "x = ''--]'' \<and> xa = 0")
      case True
      show ?thesis by (simp only: unf if_P [OF True] snd_conv le_refl)
    next
      case opn: False
      show ?thesis
      proof (cases "match x cardRe \<noteq> None")
        case True
        define xb where xb: "xb = (case match x cardRe of None \<Rightarrow> None | Some mt \<Rightarrow> orUndefined (gstr mt 1))"
        define xc where xc: "xc = parseCard opts lines i xb"
        have 1: "i < snd xc" using IH(1) [OF run x xa opn True xb] xc by simp
        have 2: "snd xc \<le> snd (cardLoop opts lines (snd xc) xa (cardChildren @ [fst xc]))"
          using IH(2) [OF run x xa opn True xb xc] .
        have "?f = cardLoop opts lines (snd xc) xa (cardChildren @ [fst xc])"
          by (simp only: unf if_not_P [OF opn] if_P [OF True] xb xc)
        with 1 2 show ?thesis by simp
      next
        case nocard: False
        show ?thesis
        proof (cases "match x gridRe \<noteq> None")
          case True
          define xb where xb: "xb = (case match x gridRe of None \<Rightarrow> [] | Some mt \<Rightarrow> gstr mt 1)"
          define xc where xc: "xc = parseContainer opts lines i grid_type xb"
          have 1: "i < snd xc" using IH(3) [OF run x xa opn nocard True xb] xc by simp
          have 2: "snd xc \<le> snd (cardLoop opts lines (snd xc) xa (cardChildren @ [fst xc]))"
            using IH(4) [OF run x xa opn nocard True xb xc] .
          have "?f = cardLoop opts lines (snd xc) xa (cardChildren @ [fst xc])"
            by (simp only: unf if_not_P [OF opn] if_not_P [OF nocard] if_P [OF True] xb xc)
          with 1 2 show ?thesis by simp
        next
          case nogrid: False
          show ?thesis
          proof (cases "match x divRe \<noteq> None \<and> \<not> includesChar x CHR '']''")
            case True
            define xb where xb: "xb = (case match x divRe of None \<Rightarrow> [] | Some mt \<Rightarrow> gstr mt 1)"
            define xc where xc: "xc = parseContainer opts lines i div_type xb"
            have 1: "i < snd xc" using IH(5) [OF run x xa opn nocard nogrid True xb] xc by simp
            have 2: "snd xc \<le> snd (cardLoop opts lines (snd xc) xa (cardChildren @ [fst xc]))"
              using IH(6) [OF run x xa opn nocard nogrid True xb xc] .
            have "?f = cardLoop opts lines (snd xc) xa (cardChildren @ [fst xc])"
              by (simp only: unf if_not_P [OF opn] if_not_P [OF nocard] if_not_P [OF nogrid] if_P [OF True] xb xc)
            with 1 2 show ?thesis by simp
          next
            case nodiv: False
            have 2: "i + 1 \<le> snd (cardLoop opts lines (i + 1) xa
              (if x \<noteq> [] then (case parseLine x of Some childNode \<Rightarrow> cardChildren @ [childNode] | None \<Rightarrow> cardChildren)
               else cardChildren))"
              using IH(7) [OF run x xa opn nocard nogrid nodiv] .
            have "?f = cardLoop opts lines (i + 1) xa
              (if x \<noteq> [] then (case parseLine x of Some childNode \<Rightarrow> cardChildren @ [childNode] | None \<Rightarrow> cardChildren)
               else cardChildren)"
              by (simp only: unf if_not_P [OF opn] if_not_P [OF nocard] if_not_P [OF nogrid] if_not_P [OF nodiv])
            with 2 show ?thesis by simp
          qed
        qed
      qed
    qed
  qed
next
  case (3 opts lines startIndex type config)
  then show ?case by (simp add: parseContainer.psimps Let_def split: ContainerType.splits)
next
  case (4 opts lines i depth containerChildren)
  note dom = 4(1) and IH = 4(2-)
  let ?f = "containerLoop opts lines i depth containerChildren"
  show ?case
  proof (cases "i < length lines \<and> 0 < depth")
    case False
    then have "?f = (containerChildren, i)"
      by (subst containerLoop.psimps [OF dom]) (simp only: if_False)
    then show ?thesis by simp
  next
    case run: True
    define x where x: "x = lineAt opts lines i"
    define xa where xa: "xa = (if x = '']'' then depth - 1 else depth)"
    have unf: "?f =
      (if x = '']'' \<and> xa = 0 then (containerChildren, i)
       else if match x cardRe \<noteq> None then
         containerLoop opts lines
           (snd (parseCard opts lines i (case match x cardRe of None \<Rightarrow> None | Some mt \<Rightarrow> orUndefined (gstr mt 1)))) xa
           (containerChildren @ [fst (parseCard opts lines i (case match x cardRe of None \<Rightarrow> None | Some mt \<Rightarrow> orUndefined (gstr mt 1)))])
       else if match x gridRe \<noteq> None then
         containerLoop opts lines
           (snd (parseContainer opts lines i grid_type (case match x gridRe of None \<Rightarrow> [] | Some mt \<Rightarrow> gstr mt 1))) xa
           (containerChildren @ [fst (parseContainer opts lines i grid_type (case match x gridRe of None \<Rightarrow> [] | Some mt \<Rightarrow> gstr mt 1))])
       else if match x divRe \<noteq> None \<and> \<not> includesChar x CHR '']'' then
         containerLoop opts lines
           (snd (parseContainer opts lines i div_type (case match x divRe of None \<Rightarrow> [] | Some mt \<Rightarrow> gstr mt 1))) xa
           (containerChildren @ [fst (parseContainer opts lines i div_type (case match x divRe of None \<Rightarrow> [] | Some mt \<Rightarrow> gstr mt 1))])
       else containerLoop opts lines (i + 1) xa
              (if x \<noteq> [] then (case parseLine x of Some childNode \<Rightarrow> containerChildren @ [childNode] | None \<Rightarrow> containerChildren)
               else containerChildren))"
      by (subst containerLoop.psimps [OF dom]) (simp only: run if_True Let_def x xa simp_thms)
    show ?thesis
    proof (cases "x = '']'' \<and> xa = 0")
      case True
      show ?thesis by (simp only: unf if_P [OF True] snd_conv le_refl)
    next
      case opn: False
      show ?thesis
      proof (cases "match x cardRe \<noteq> None")
        case True
        define xb where xb: "xb = (case match x cardRe of None \<Rightarrow> None | Some mt \<Rightarrow> orUndefined (gstr mt 1))"
        define xc where xc: "xc = parseCard opts lines i xb"
        have 1: "i < snd xc" using IH(1) [OF run x xa opn True xb] xc by simp
        have 2: "snd xc \<le> snd (containerLoop opts lines (snd xc) xa (containerChildren @ [fst xc]))"
          using IH(2) [OF run x xa opn True xb xc] .
        have "?f = containerLoop opts lines (snd xc) xa (containerChildren @ [fst xc])"
          by (simp only: unf if_not_P [OF opn] if_P [OF True] xb xc)
        with 1 2 show ?thesis by simp
      next
        case nocard: False
        show ?thesis
        proof (cases "match x gridRe \<noteq> None")
          case True
          define xb where xb: "xb = (case match x gridRe of None \<Rightarrow> [] | Some mt \<Rightarrow> gstr mt 1)"
          define xc where xc: "xc = parseContainer opts lines i grid_type xb"
          have 1: "i < snd xc" using IH(3) [OF run x xa opn nocard True xb] xc by simp
          have 2: "snd xc \<le> snd (containerLoop opts lines (snd xc) xa (containerChildren @ [fst xc]))"
            using IH(4) [OF run x xa opn nocard True xb xc] .
          have "?f = containerLoop opts lines (snd xc) xa (containerChildren @ [fst xc])"
            by (simp only: unf if_not_P [OF opn] if_not_P [OF nocard] if_P [OF True] xb xc)
          with 1 2 show ?thesis by simp
        next
          case nogrid: False
          show ?thesis
          proof (cases "match x divRe \<noteq> None \<and> \<not> includesChar x CHR '']''")
            case True
            define xb where xb: "xb = (case match x divRe of None \<Rightarrow> [] | Some mt \<Rightarrow> gstr mt 1)"
            define xc where xc: "xc = parseContainer opts lines i div_type xb"
            have 1: "i < snd xc" using IH(5) [OF run x xa opn nocard nogrid True xb] xc by simp
            have 2: "snd xc \<le> snd (containerLoop opts lines (snd xc) xa (containerChildren @ [fst xc]))"
              using IH(6) [OF run x xa opn nocard nogrid True xb xc] .
            have "?f = containerLoop opts lines (snd xc) xa (containerChildren @ [fst xc])"
              by (simp only: unf if_not_P [OF opn] if_not_P [OF nocard] if_not_P [OF nogrid] if_P [OF True] xb xc)
            with 1 2 show ?thesis by simp
          next
            case nodiv: False
            have 2: "i + 1 \<le> snd (containerLoop opts lines (i + 1) xa
              (if x \<noteq> [] then (case parseLine x of Some childNode \<Rightarrow> containerChildren @ [childNode] | None \<Rightarrow> containerChildren)
               else containerChildren))"
              using IH(7) [OF run x xa opn nocard nogrid nodiv] .
            have "?f = containerLoop opts lines (i + 1) xa
              (if x \<noteq> [] then (case parseLine x of Some childNode \<Rightarrow> containerChildren @ [childNode] | None \<Rightarrow> containerChildren)
               else containerChildren)"
              by (simp only: unf if_not_P [OF opn] if_not_P [OF nocard] if_not_P [OF nogrid] if_not_P [OF nodiv])
            with 2 show ?thesis by simp
          qed
        qed
      qed
    qed
  qed
qed

lemma nested_terminates: "All parseCard_cardLoop_parseContainer_containerLoop_dom"
proof (relation "measure (\<lambda>x. case x of
    Inl (Inl (opts, lines, startIndex, title)) \<Rightarrow> max 1 (2 * (length lines - startIndex) - 1)
  | Inl (Inr (opts, lines, i, depth, cs)) \<Rightarrow> 2 * (length lines - i)
  | Inr (Inl (opts, lines, startIndex, type, config)) \<Rightarrow> max 1 (2 * (length lines - startIndex) - 1)
  | Inr (Inr (opts, lines, i, depth, cs)) \<Rightarrow> 2 * (length lines - i))", goal_cases)
  case 1
  show ?case by simp
next
  case 2 then show ?case by auto
next
  case 3 then show ?case by auto
next
  case (4 opts lines i depth cardChildren x xa xb xc)
  with bounds_partial(1) [of opts lines i xb] show ?case by auto
next
  case 5 then show ?case by auto
next
  case (6 opts lines i depth cardChildren x xa xb xc)
  with bounds_partial(3) [of opts lines i grid_type xb] show ?case by auto
next
  case 7 then show ?case by auto
next
  case (8 opts lines i depth cardChildren x xa xb xc)
  with bounds_partial(3) [of opts lines i div_type xb] show ?case by auto
next
  case 9 then show ?case by auto
next
  case 10 then show ?case by auto
next
  case 11 then show ?case by auto
next
  case (12 opts lines i depth cardChildren x xa xb xc)
  with bounds_partial(1) [of opts lines i xb] show ?case by auto
next
  case 13 then show ?case by auto
next
  case (14 opts lines i depth cardChildren x xa xb xc)
  with bounds_partial(3) [of opts lines i grid_type xb] show ?case by auto
next
  case 15 then show ?case by auto
next
  case (16 opts lines i depth cardChildren x xa xb xc)
  with bounds_partial(3) [of opts lines i div_type xb] show ?case by auto
next
  case 17 then show ?case by auto
qed

termination parseCard
  by (rule nested_terminates)

declare parseCard.simps [simp del] cardLoop.simps [simp del]
  parseContainer.simps [simp del] containerLoop.simps [simp del]

lemma parseCard_next: "startIndex < snd (parseCard opts lines startIndex title)"
  by (rule bounds_partial) (rule nested_terminates [THEN spec])

lemma parseContainer_next: "startIndex < snd (parseContainer opts lines startIndex type config)"
  by (rule bounds_partial) (rule nested_terminates [THEN spec])

section \<open>parse\<close>

text \<open>\<^verbatim>\<open>line.split("|").map((h) => h.trim()).filter((h) => h.length > 0)\<close>\<close>

abbreviation cells :: "string \<Rightarrow> string list" where
  "cells line \<equiv> splitTrim CHR ''|'' line"

text \<open>The inner loop of the table branch: the rows, and the index of the first line that is not one.\<close>

function tableRows :: "ParserOptions \<Rightarrow> string list \<Rightarrow> nat \<Rightarrow> string list list \<Rightarrow> string list list \<times> nat" where
  "tableRows opts lines i rows =
     (if i < length lines then
        (let rowLine = lineAt opts lines i
         in if rowLine = [] \<or> \<not> includesChar rowLine CHR ''|'' then (rows, i)
            else tableRows opts lines (i + 1) (rows @ [cells rowLine]))
      else (rows, i))"
  by pat_completeness auto

lemma tableRows_terminates: "All tableRows_dom"
  by (relation "measure (\<lambda>(opts, lines, i, rows). length lines - i)") auto

termination tableRows
  by (rule tableRows_terminates)

declare tableRows.simps [simp del]

lemma tableRows_next: "i \<le> snd (tableRows opts lines i rows)"
proof (induction opts lines i rows rule: tableRows.induct)
  case (1 opts lines i rows)
  show ?case
    using 1 by (subst tableRows.simps) (auto simp: Let_def)
qed

text \<open>The index after the optional separator line that follows the header at \<open>i - 1\<close>.\<close>

definition skipSeparator :: "ParserOptions \<Rightarrow> string list \<Rightarrow> nat \<Rightarrow> nat" where
  "skipSeparator opts lines i =
     (if i < length lines then
        (let separatorLine = lineAt opts lines i
         in if includesChar separatorLine CHR ''-'' \<and> includesChar separatorLine CHR ''|''
            then i + 1 else i)
      else i)"

text \<open>Decimal digits of a number, for the message of the strict mode.\<close>

function showNat :: "nat \<Rightarrow> string" where
  "showNat n = (if n < 10 then [char_of (48 + n)] else showNat (n div 10) @ [char_of (48 + n mod 10)])"
  by pat_completeness auto

lemma showNat_terminates: "All showNat_dom"
  by (relation "measure (\<lambda>n. n)") auto

termination showNat
  by (rule showNat_terminates)

declare showNat.simps [simp del]

lemma skipSeparator_next: "i \<le> skipSeparator opts lines i"
  by (simp add: skipSeparator_def Let_def)

lemma table_next: "i < snd (tableRows opts lines (skipSeparator opts lines (Suc i)) rows)"
  using skipSeparator_next [of "Suc i" opts lines]
    tableRows_next [of "skipSeparator opts lines (Suc i)" opts lines rows] by simp

text \<open>
  One round of the loop of \<^verbatim>\<open>parse\<close>, at an index below \<^verbatim>\<open>lines.length\<close>:
  from the variables \<open>i\<close>, \<open>nodes\<close> and \<open>errors\<close> to their values after the round.
\<close>

definition parseStep :: "ParserOptions \<Rightarrow> string list \<Rightarrow> nat \<Rightarrow> MarkdownNode list \<Rightarrow> string list \<Rightarrow> nat \<times> MarkdownNode list \<times> string list" where
  "parseStep opts lines i nodes errors =
     (let line = lineAt opts lines i
      in if line = [] then (i + 1, nodes, errors)
         else if includesChar line CHR ''|'' \<and> startsWith (trim line) ''|'' then
           (let headers = cells line;
                rows = tableRows opts lines (skipSeparator opts lines (i + 1)) []
            in (snd rows, nodes @ [Table headers (fst rows)], errors))
         else
      (case match line cardRe of
         Some cardMatch \<Rightarrow>
           (let result = parseCard opts lines i (orUndefined (gstr cardMatch 1))
            in (snd result, nodes @ [fst result], errors))
       | None \<Rightarrow>
      (case match line gridRe of
         Some gridMatch \<Rightarrow>
           (let result = parseContainer opts lines i grid_type (gstr gridMatch 1)
            in (snd result, nodes @ [fst result], errors))
       | None \<Rightarrow>
      (if match line divRe \<noteq> None \<and> \<not> includesChar line CHR '']'' then
         (let config = (case match line divRe of None \<Rightarrow> [] | Some divMatch \<Rightarrow> gstr divMatch 1);
              result = parseContainer opts lines i div_type config
          in (snd result, nodes @ [fst result], errors))
       else
      (case parseLine line of
         Some node \<Rightarrow> (i + 1, nodes @ [node], errors)
       | None \<Rightarrow>
           (i + 1, nodes,
            if strict opts then
              errors @ [''Line '' @ showNat (i + 1) @ '': Unable to parse '' @ [CHR 0x22] @ line @ [CHR 0x22]]
            else errors))))))"

lemma parseStep_next: "i < fst (parseStep opts lines i nodes errors)"
  using table_next [of i opts lines "[]"]
  by (auto simp: parseStep_def Let_def parseCard_next parseContainer_next split: option.splits)

text \<open>The loop itself; it returns \<open>nodes\<close> and \<open>errors\<close>.\<close>

function parseLoop :: "ParserOptions \<Rightarrow> string list \<Rightarrow> nat \<Rightarrow> MarkdownNode list \<Rightarrow> string list \<Rightarrow> MarkdownNode list \<times> string list" where
  "parseLoop opts lines i nodes errors =
     (if i < length lines then
        (let nxt = parseStep opts lines i nodes errors
         in parseLoop opts lines (fst nxt) (fst (snd nxt)) (snd (snd nxt)))
      else (nodes, errors))"
  by pat_completeness auto

lemma parseLoop_terminates: "All parseLoop_dom"
proof (relation "measure (\<lambda>(opts, lines, i, nodes, errors). length lines - i)")
  show "wf (measure (\<lambda>(opts, lines, i, nodes, errors). length lines - i))"
    by simp
next
  fix opts lines i and nodes :: "MarkdownNode list" and errors :: "string list" and nxt
  assume "i < length lines" "nxt = parseStep opts lines i nodes errors"
  then show "((opts, lines, fst nxt, fst (snd nxt), snd (snd nxt)), (opts, lines, i, nodes, errors))
      \<in> measure (\<lambda>(opts, lines, i, nodes, errors). length lines - i)"
    using parseStep_next [of i opts lines nodes errors]
    by (cases "parseStep opts lines i nodes errors") (auto intro!: diff_less_mono2)
qed

termination parseLoop
  by (rule parseLoop_terminates)

declare parseLoop.simps [simp del]

record ParseResult =
  nodes :: "MarkdownNode list"
  errors :: "string list option"

text \<open>The options of \<^verbatim>\<open>new MarkdownParser()\<close>: both flags off.\<close>

definition defaultOptions :: ParserOptions where
  "defaultOptions = \<lparr>strict = False, preserveWhitespace = False\<rparr>"

definition parse :: "ParserOptions \<Rightarrow> string \<Rightarrow> ParseResult" where
  "parse opts markdown =
     (let lines = split CHR 0x0A markdown;
          done = parseLoop opts lines 0 [] []
      in \<lparr>nodes = fst done,
          errors = (if length (snd done) > 0 then Some (snd done) else None)\<rparr>)"

text \<open>A text of several lines, as a template literal of the tests writes it.\<close>

fun joinLines :: "string list \<Rightarrow> string" where
  "joinLines [] = []"
| "joinLines [l] = l"
| "joinLines (l # ls) = l @ CHR 0x0A # joinLines ls"

section \<open>Containers as the specification reads them\<close>

text \<open>The text of a line as the loops read it.\<close>

definition lineOf :: "ParserOptions \<Rightarrow> string \<Rightarrow> string" where
  "lineOf opts l = (if preserveWhitespace opts then l else trim l)"


text \<open>
  An opener is a line that starts a container: a card with its optional title, or a grid
  or div with its configuration. \<open>openerOf\<close> is the three tests that \<^verbatim>\<open>parse\<close>,
  \<^verbatim>\<open>parseCard\<close> and \<^verbatim>\<open>parseContainer\<close> make of a line, in their order, with the
  argument they pass on; \<open>closer\<close> is the line that closes the container, and \<open>nodeOf\<close>
  the node that \<^verbatim>\<open>parseCard\<close> or \<^verbatim>\<open>parseContainer\<close> builds from the children.
\<close>

datatype Opener = CardOpener "string option" | BoxOpener ContainerType string

definition openerOf :: "string \<Rightarrow> Opener option" where
  "openerOf l =
     (case match l cardRe of
        Some mt \<Rightarrow> Some (CardOpener (orUndefined (gstr mt 1)))
      | None \<Rightarrow>
     (case match l gridRe of
        Some mt \<Rightarrow> Some (BoxOpener grid_type (gstr mt 1))
      | None \<Rightarrow>
     (if match l divRe \<noteq> None \<and> \<not> includesChar l CHR '']'' then
        Some (BoxOpener div_type (case match l divRe of None \<Rightarrow> [] | Some mt \<Rightarrow> gstr mt 1))
      else None)))"

fun closer :: "Opener \<Rightarrow> string" where
  "closer (CardOpener title) = ''--]''"
| "closer (BoxOpener type config) = '']''"

fun nodeOf :: "Opener \<Rightarrow> MarkdownNode list \<Rightarrow> MarkdownNode" where
  "nodeOf (CardOpener title) cs =
     Card (case title of None \<Rightarrow> None
           | Some t \<Rightarrow> if t = [] then None else Some (parseInlineEmphasis t)) cs"
| "nodeOf (BoxOpener grid_type config) cs = Grid config cs"
| "nodeOf (BoxOpener div_type config) cs = Div (if config \<noteq> [] then Some config else None) cs"






section \<open>The model on tests of the repository\<close>

text \<open>
  Inputs of the test suite of \<^verbatim>\<open>MarkdownParser\<close> with the results that the tests expect
  of this version of the parser, evaluated on the model.
\<close>

lemma repository_tests:
  "nodes (parse defaultOptions ''Status __> [ Active , Inactive , Pending ]'')
     = [Dropdown ''Status'' (Some [''Active'', ''Inactive'', ''Pending''])]"
  "nodes (parse defaultOptions ''[(login)][cancel]'')
     = [Container [Button ''login'' default_v None None, Button ''cancel'' outline None None]]"
  "nodes (parse defaultOptions ''[Save | bg-blue-500 text-white px-6 py-2]'')
     = [Button ''Save'' outline (Some ''bg-blue-500 text-white px-6 py-2'') None]"
  "nodes (parse defaultOptions ''This _ is _ not _ emphasis'')
     = [Text [TextContent ''This '', Italic '' is '', TextContent '' not '', TextContent ''_'',
              TextContent '' emphasis'']]"
  "nodes (parse defaultOptions (joinLines
       [''[-- Outer Card'', ''[grid cols-2 gap-4'', ''[-- Inner Card 1'', ''Email ___'', ''--]'',
        ''[-- Inner Card 2'', ''Password __*'', ''--]'', '']'', ''--]'']))
     = [Card (Some [TextContent ''Outer Card''])
          [Grid ''cols-2 gap-4''
             [Card (Some [TextContent ''Inner Card 1'']) [Input ''Email'' text_input],
              Card (Some [TextContent ''Inner Card 2'']) [Input ''Password'' password]]]]"
  "nodes (parse defaultOptions (joinLines
       [''| Name | Age |'', ''|------|-----|'', ''| John | 30 |'', [], ''Some text after table'']))
     = [Table [''Name'', ''Age''] [[''John'', ''30'']],
        Text [TextContent ''Some text after table'']]"
  "map nodeType (nodes (parse \<lparr>strict = False, preserveWhitespace = True\<rparr>
       (joinLines [''  # Header with spaces'', ''  Email ___  ''])))
     = [text_t, text_t]"
  "parse \<lparr>strict = True, preserveWhitespace = False\<rparr>
       (joinLines [''# Valid Header'', ''Email ___'', ''@@@ Invalid Syntax @@@'', ''Password __*''])
     = \<lparr>nodes = [Header 1 [TextContent ''Valid Header''], Input ''Email'' text_input,
                   Text [TextContent ''@@@ Invalid Syntax @@@''], Input ''Password'' password],
        errors = None\<rparr>"
  by code_simp+

section \<open>Facts about the patterns and about parseLine\<close>

lemma search_Bol: "length s < n \<Longrightarrow> search (Seq Bol r) n s = None"
  by (induction s) auto

text \<open>A pattern that starts with \<^verbatim>\<open>^\<close> is tried at the start of the input only.\<close>

lemma match_Bol:
  "match s (Seq Bol r) =
     (case run (Seq Bol r) (length s) (s, []) of
        [] \<Rightarrow> None
      | st # _ \<Rightarrow> Some (mkMatch (length s) (s, st)))"
  by (cases s) (auto simp: match_def search_Bol split: list.splits)

lemma times_1_6:
  "times 1 6 r = Seq r (Opt (Seq r (Opt (Seq r (Opt (Seq r (Opt (Seq r (Opt (Seq r Eps))))))))))"
  by (simp add: numeral_eq_Suc)

lemma run_chr: "run (chr c) n (x # xs, caps) = (if x = c then [(xs, caps)] else [])"
  by simp

lemma concat_map_empty: "(\<And>x. x \<in> set xs \<Longrightarrow> f x = []) \<Longrightarrow> concat (map f xs) = []"
  by (induction xs) auto

lemma run_Seq_empty:
  "(\<And>x. x \<in> set (run r1 n st) \<Longrightarrow> run r2 n x = []) \<Longrightarrow> run (Seq r1 r2) n st = []"
  by (simp add: concat_map_empty)

lemma run_Group_fst:
  "st' \<in> set (run (Group i r) n st) \<Longrightarrow> \<exists>s0 \<in> set (run r n st). fst st' = fst s0"
  by force

lemma run_Bol_Seq: "run (Seq Bol r) n st = (if length (fst st) = n then run r n st else [])"
  by simp

lemma startsWith_append: "startsWith s p \<Longrightarrow> \<exists>rest. s = p @ rest"
  unfolding startsWith_def by (metis append_take_drop_id)

text \<open>After one to six \<^verbatim>\<open>#\<close> of a line that starts with seven, the next character is a \<^verbatim>\<open>#\<close>.\<close>

lemma hashes:
  assumes "st' \<in> set (run (times 1 6 (chr CHR ''#'')) n (''#######'' @ rest, caps))"
  shows "\<exists>t. fst st' = CHR ''#'' # t"
  using assms unfolding times_1_6 by (auto simp del: run.simps(1) simp add: run_chr)

lemma header_run_fails: "run headerRe n (''#######'' @ rest, []) = []"
proof -
  have nospace: "\<not> isSpace CHR ''#''" by (simp add: isSpace_def)
  have main: "run (Seq (Group 1 (times 1 6 (chr CHR ''#''))) (Seq (Plus ws) r)) n (''#######'' @ rest, []) = []" for r
  proof (rule run_Seq_empty)
    fix s1 assume "s1 \<in> set (run (Group 1 (times 1 6 (chr CHR ''#''))) n (''#######'' @ rest, []))"
    from run_Group_fst [OF this] hashes [of _ n rest "[]"]
    obtain t where "fst s1 = CHR ''#'' # t" by metis
    with nospace have "run ws n s1 = []" by simp
    then show "run (Seq (Plus ws) r) n s1 = []" by simp
  qed
  show ?thesis
    by (simp only: headerRe_def cat.simps run_Bol_Seq main if_cancel)
qed

lemma header_fails:
  assumes "startsWith line ''#######''"
  shows "match line headerRe = None"
proof -
  from startsWith_append [OF assms] obtain rest where "line = ''#######'' @ rest" ..
  then have "run headerRe (length line) (line, []) = []"
    by (simp only: header_run_fails)
  then show ?thesis
    unfolding headerRe_def cat.simps by (simp only: match_Bol list.case)
qed

lemma parseLine_header:
  "parseLine line = Some node \<Longrightarrow> nodeType node = header \<Longrightarrow> match line headerRe \<noteq> None"
  by (auto simp: parseLine_def Let_def split: option.splits if_splits)

text \<open>None of the rules that \<open>parseLine\<close> tries after the header rule applies to the line.\<close>

definition noLaterRule :: "string \<Rightarrow> bool" where
  "noLaterRule line =
     (length (matchAll line fieldPattern) \<le> 1
      \<and> match line passwordRe = None \<and> match line textareaRe = None
      \<and> match line inputRe = None \<and> match line checkboxRe = None
      \<and> match line radioGroupRe = None \<and> match line dropdownWithOptionsRe = None
      \<and> match line dropdownRe = None \<and> match line imageRe = None
      \<and> (match line multiButtonRe = None \<or> length (matchAll line buttonsRe) \<le> 1)
      \<and> match line defaultButtonRe = None \<and> match line buttonRe = None)"

lemma parseLine_fallback:
  "match line headerRe = None \<Longrightarrow> noLaterRule line \<Longrightarrow> parseLine line = Some (Text (parseInlineEmphasis line))"
  by (auto simp: parseLine_def noLaterRule_def Let_def)

lemma dropWhile_id: "xs = [] \<or> \<not> P (hd xs) \<Longrightarrow> dropWhile P xs = xs"
  by (cases xs) auto

lemma trim_idem: "trim (trim s) = trim s"
proof -
  define a where "a = dropWhile isSpace s"
  define b where "b = dropWhile isSpace (rev a)"
  have t: "trim s = rev b" by (simp add: trim_def a_def b_def)
  have "rev a = takeWhile isSpace (rev a) @ b" by (simp add: b_def)
  then have a: "a = rev b @ rev (takeWhile isSpace (rev a))"
    by (metis rev_append rev_rev_ident)
  have "dropWhile isSpace (rev b) = rev b"
  proof (rule dropWhile_id, cases "rev b = []")
    case True then show "rev b = [] \<or> \<not> isSpace (hd (rev b))" by simp
  next
    case False
    then have "hd (rev b) = hd a" using a by (metis hd_append2)
    moreover have "a \<noteq> []" using a False by auto
    then have "\<not> isSpace (hd a)" unfolding a_def by (rule hd_dropWhile)
    ultimately show "rev b = [] \<or> \<not> isSpace (hd (rev b))" by simp
  qed
  moreover have "dropWhile isSpace b = b" by (simp add: b_def)
  ultimately have "trim (rev b) = rev b" by (simp add: trim_def)
  then show ?thesis by (simp only: t)
qed

lemma splitTrim_entries: "opt \<in> set (splitTrim c s) \<Longrightarrow> opt \<noteq> [] \<and> trim opt = opt"
  by (auto simp: splitTrim_def trim_idem)

lemma parseLine_radiogroup:
  "parseLine line = Some (Radiogroup label opts) \<Longrightarrow>
     \<exists>mt. match line radioGroupRe = Some mt \<and> label = gstr mt 1
       \<and> opts = splitTrim CHR '','' (gstr mt 2)"
  by (auto simp: parseLine_def Let_def split: option.splits if_splits)

section \<open>Facts about the loops\<close>

lemma parseLine_total: "parseLine line \<noteq> None"
  by (simp add: parseLine_def Let_def split: option.splits)

lemma parseStep_errors: "snd (snd (parseStep opts lines i ns es)) = es"
  using parseLine_total [of "lineAt opts lines i"]
  by (auto simp: parseStep_def Let_def split: option.splits)

lemma parseLoop_errors: "snd (parseLoop opts lines i ns es) = es"
proof (induction opts lines i ns es rule: parseLoop.induct)
  case (1 opts lines i ns es)
  show ?case
  proof (cases "i < length lines")
    case True
    with 1 [OF True refl] show ?thesis
      by (subst parseLoop.simps) (simp add: Let_def parseStep_errors)
  next
    case False
    then show ?thesis by (subst parseLoop.simps) simp
  qed
qed

lemma lineAt_lineOf: "lineAt opts lines i = lineOf opts (lines ! i)"
  by (simp add: lineAt_def lineOf_def)

lemma cardLoop_next: "i \<le> snd (cardLoop opts lines i depth cs)"
  by (rule bounds_partial) (rule nested_terminates [THEN spec])

lemma containerLoop_next: "i \<le> snd (containerLoop opts lines i depth cs)"
  by (rule bounds_partial) (rule nested_terminates [THEN spec])

lemma loops_at_end:
  assumes "length lines \<le> k"
  shows "parseLoop opts lines k ns es = (ns, es)"
    and "cardLoop opts lines k depth cs = (cs, k)"
    and "containerLoop opts lines k depth cs = (cs, k)"
proof -
  show "parseLoop opts lines k ns es = (ns, es)"
    using assms by (subst parseLoop.simps) simp
  show "cardLoop opts lines k depth cs = (cs, k)"
    using assms by (subst cardLoop.simps) simp
  show "containerLoop opts lines k depth cs = (cs, k)"
    using assms by (subst containerLoop.simps) simp
qed

lemma container_node_types:
  "nodeType (fst (parseCard opts lines startIndex title)) = card"
  "nodeType (fst (parseContainer opts lines startIndex type config))
     = (case type of grid_type \<Rightarrow> grid | div_type \<Rightarrow> div_t)"
proof -
  show "nodeType (fst (parseCard opts lines startIndex title)) = card"
    by (subst parseCard.simps) (simp add: Let_def)
  show "nodeType (fst (parseContainer opts lines startIndex type config))
     = (case type of grid_type \<Rightarrow> grid | div_type \<Rightarrow> div_t)"
    by (subst parseContainer.simps) (simp add: Let_def split: ContainerType.splits)
qed

text \<open>
  The two loops as one, for the opener \<open>k\<close> of the container, and the call that a loop
  makes for a nested opener; the counter \<open>depth\<close> is 1 whenever a loop runs.
\<close>

definition parseOpener :: "ParserOptions \<Rightarrow> string list \<Rightarrow> nat \<Rightarrow> Opener \<Rightarrow> MarkdownNode \<times> nat" where
  "parseOpener opts lines i k =
     (case k of
        CardOpener title \<Rightarrow> parseCard opts lines i title
      | BoxOpener type config \<Rightarrow> parseContainer opts lines i type config)"

definition loopOf :: "Opener \<Rightarrow> ParserOptions \<Rightarrow> string list \<Rightarrow> nat \<Rightarrow> MarkdownNode list \<Rightarrow> MarkdownNode list \<times> nat" where
  "loopOf k opts lines i cs =
     (case k of
        CardOpener title \<Rightarrow> cardLoop opts lines i 1 cs
      | BoxOpener type config \<Rightarrow> containerLoop opts lines i 1 cs)"

lemma parseOpener_loopOf:
  "parseOpener opts lines i k
     = (nodeOf k (fst (loopOf k opts lines (i + 1) [])), snd (loopOf k opts lines (i + 1) []) + 1)"
proof (cases k)
  case (CardOpener title)
  show ?thesis
    unfolding CardOpener parseOpener_def loopOf_def Opener.case
    by (subst parseCard.simps) (simp add: Let_def)
next
  case (BoxOpener type config)
  show ?thesis
    unfolding BoxOpener parseOpener_def loopOf_def Opener.case
    by (subst parseContainer.simps) (cases type; simp add: Let_def)
qed

lemma loopOf_end: "length lines \<le> i \<Longrightarrow> loopOf k opts lines i cs = (cs, i)"
  by (cases k) (simp_all add: loopOf_def loops_at_end)

lemma loopOf_step:
  assumes "i < length lines"
  shows "loopOf k opts lines i cs =
    (if lineAt opts lines i = closer k then (cs, i)
     else (case openerOf (lineAt opts lines i) of
             Some k' \<Rightarrow>
               loopOf k opts lines (snd (parseOpener opts lines i k'))
                 (cs @ [fst (parseOpener opts lines i k')])
           | None \<Rightarrow>
               loopOf k opts lines (i + 1)
                 (if lineAt opts lines i \<noteq> []
                  then (case parseLine (lineAt opts lines i) of Some n \<Rightarrow> cs @ [n] | None \<Rightarrow> cs)
                  else cs)))"
proof (cases k)
  case (CardOpener title)
  show ?thesis
    unfolding CardOpener loopOf_def Opener.case closer.simps
    using assms
    by (subst cardLoop.simps)
      (auto simp: Let_def openerOf_def parseOpener_def split: option.splits)
next
  case (BoxOpener type config)
  show ?thesis
    unfolding BoxOpener loopOf_def Opener.case closer.simps
    using assms
    by (subst containerLoop.simps)
      (auto simp: Let_def openerOf_def parseOpener_def split: option.splits)
qed




lemma loopOf_next: "i \<le> snd (loopOf k opts lines i cs)"
  by (cases k) (simp_all add: loopOf_def cardLoop_next containerLoop_next)









lemma match_first:
  "match l (Seq Bol (Seq (Seq (chr c) a) b)) = Some y \<Longrightarrow> \<exists>r. l = c # r"
  "match l (Seq Bol (Seq (chr c) b)) = Some y \<Longrightarrow> \<exists>r. l = c # r"
  by (simp_all only: match_Bol) (cases l; auto split: list.splits if_splits)+

lemma opener_bracket:
  assumes "openerOf l = Some k"
  shows "\<exists>r. l = CHR ''['' # r"
proof -
  from assms have "match l cardRe \<noteq> None \<or> match l gridRe \<noteq> None \<or> match l divRe \<noteq> None"
    by (auto simp: openerOf_def split: option.splits if_splits)
  then show ?thesis
    unfolding cardRe_def gridRe_def divRe_def cat.simps lit.simps
    by (auto dest: match_first)
qed

lemma trim_keeps_first:
  assumes "\<not> isSpace c"
  shows "\<exists>r. trim (c # s) = c # r"
proof -
  have d: "dropWhile isSpace (c # s) = c # s" using assms by simp
  have "rev (c # s) = takeWhile isSpace (rev (c # s)) @ dropWhile isSpace (rev (c # s))"
    by simp
  then have "c # s = rev (dropWhile isSpace (rev (c # s))) @ rev (takeWhile isSpace (rev (c # s)))"
    by (metis rev_append rev_rev_ident)
  moreover have "dropWhile isSpace (rev (c # s)) \<noteq> []"
    using assms by (auto simp: dropWhile_eq_Nil_conv)
  ultimately show ?thesis
    unfolding trim_def d
    by (cases "rev (dropWhile isSpace (rev (c # s)))") auto
qed

lemma opener_not_table:
  assumes "openerOf l = Some k"
  shows "l \<noteq> []" "\<not> startsWith (trim l) ''|''"
proof -
  from opener_bracket [OF assms] obtain r where l: "l = CHR ''['' # r" by blast
  then show "l \<noteq> []" by simp
  have "\<not> isSpace CHR ''[''" by (simp add: isSpace_def)
  from trim_keeps_first [OF this, of r] show "\<not> startsWith (trim l) ''|''"
    by (auto simp: l startsWith_def)
qed

lemma parseStep_opener:
  assumes "openerOf (lineAt opts lines i) = Some k"
  shows "parseStep opts lines i ns es
    = (snd (parseOpener opts lines i k), ns @ [fst (parseOpener opts lines i k)], es)"
  using assms opener_not_table [OF assms]
  by (auto simp: parseStep_def Let_def openerOf_def parseOpener_def split: option.splits if_splits)





text \<open>The test of the loop of table rows: the line is not blank and holds a \<^verbatim>\<open>|\<close>.\<close>

definition isRowLine :: "string \<Rightarrow> bool" where
  "isRowLine l = (l \<noteq> [] \<and> includesChar l CHR ''|'')"

text \<open>The lines that the table whose header is line \<open>i\<close> takes as its rows.\<close>

definition tableRowLines :: "ParserOptions \<Rightarrow> string list \<Rightarrow> nat \<Rightarrow> string list" where
  "tableRowLines opts lines i =
     takeWhile isRowLine (map (lineOf opts) (drop (skipSeparator opts lines (i + 1)) lines))"

lemma tableRows_takeWhile:
  "tableRows opts lines i rows =
     (rows @ map cells (takeWhile isRowLine (map (lineOf opts) (drop i lines))),
      i + length (takeWhile isRowLine (map (lineOf opts) (drop i lines))))"
proof (induction opts lines i rows rule: tableRows.induct)
  case (1 opts lines i rows)
  show ?case
  proof (cases "i < length lines")
    case False
    then show ?thesis by (subst tableRows.simps) simp
  next
    case True
    then have d: "drop i lines = lines ! i # drop (i + 1) lines"
      by (simp add: Cons_nth_drop_Suc)
    show ?thesis
    proof (cases "isRowLine (lineAt opts lines i)")
      case False
      then have c: "lineAt opts lines i = [] \<or> \<not> includesChar (lineAt opts lines i) CHR ''|''"
        by (simp add: isRowLine_def)
      have step: "tableRows opts lines i rows = (rows, i)"
        using True c by (subst tableRows.simps) (simp add: Let_def)
      from False have "\<not> isRowLine (lineOf opts (lines ! i))"
        by (simp add: lineAt_lineOf)
      with d show ?thesis by (simp add: step)
    next
      case row: True
      then have c: "\<not> (lineAt opts lines i = [] \<or> \<not> includesChar (lineAt opts lines i) CHR ''|'')"
        by (simp add: isRowLine_def)
      have step: "tableRows opts lines i rows
          = tableRows opts lines (i + 1) (rows @ [cells (lineAt opts lines i)])"
        using True c by (subst tableRows.simps) (simp add: Let_def)
      from row have "isRowLine (lineOf opts (lines ! i))"
        by (simp add: lineAt_lineOf)
      with d show ?thesis
        unfolding step 1 [OF True refl c] by (simp add: lineAt_lineOf)
    qed
  qed
qed

lemma set_trim: "set (trim s) \<subseteq> set s"
  by (auto simp: trim_def dest!: set_dropWhileD)

lemma startsWith_trim_includes: "startsWith (trim line) ''|'' \<Longrightarrow> includesChar line CHR ''|''"
proof -
  assume "startsWith (trim line) ''|''"
  then obtain rest where "trim line = ''|'' @ rest" by (auto dest: startsWith_append)
  then have "CHR ''|'' \<in> set (trim line)" by simp
  with set_trim show ?thesis by (auto simp: includesChar_def)
qed

lemma parseLine_not_table: "parseLine line = Some n \<Longrightarrow> nodeType n \<noteq> table"
  by (auto simp: parseLine_def Let_def split: option.splits if_splits)

lemma parseStep_table:
  assumes "lineAt opts lines i \<noteq> []" "startsWith (trim (lineAt opts lines i)) ''|''"
  shows "parseStep opts lines i ns es =
     (skipSeparator opts lines (i + 1) + length (tableRowLines opts lines i),
      ns @ [Table (cells (lineAt opts lines i)) (map cells (tableRowLines opts lines i))], es)"
  using assms startsWith_trim_includes [OF assms(2)]
  by (simp add: parseStep_def Let_def tableRows_takeWhile tableRowLines_def)

lemma parseStep_not_table:
  assumes "lineAt opts lines i \<noteq> []" "\<not> startsWith (trim (lineAt opts lines i)) ''|''"
  shows "\<exists>j n. parseStep opts lines i ns es = (j, ns @ [n], es) \<and> nodeType n \<noteq> table"
  using assms parseLine_total [of "lineAt opts lines i"] parseLine_not_table [of "lineAt opts lines i"]
  by (auto simp: parseStep_def Let_def container_node_types split: option.splits ContainerType.splits)

text \<open>
  The matches of a pattern with the flag \<^verbatim>\<open>g\<close> come in the order of the text: each
  one starts where the one before it ended, or further right.
\<close>

lemma matchAllFrom_unfold:
  "matchAllFrom r n s =
     (case search r n s of
        None \<Rightarrow> []
      | Some found \<Rightarrow>
          mkMatch n found #
          (if length (fst (snd found)) < length (fst found) then matchAllFrom r n (fst (snd found))
           else (case fst (snd found) of [] \<Rightarrow> [] | _ # t \<Rightarrow> matchAllFrom r n t)))"
  by (rule matchAllFrom.simps)

lemma matchAllFrom_index:
  "length s \<le> n \<Longrightarrow> m \<in> set (matchAllFrom r n s) \<Longrightarrow> n - length s \<le> index m"
proof (induction r n s arbitrary: m rule: matchAllFrom.induct)
  case (1 r n s)
  show ?case
  proof (cases "search r n s")
    case None
    with "1.prems" show ?thesis by (subst (asm) matchAllFrom_unfold) simp
  next
    case (Some found)
    obtain start en caps where found: "found = (start, en, caps)" by (cases found) auto
    from search_len [of r n s start "(en, caps)"] Some found
    have len: "length start \<le> length s" "length en \<le> length start" by auto
    show ?thesis
    proof (cases "m = mkMatch n found")
      case True
      with len "1.prems" show ?thesis by (simp add: mkMatch_def found)
    next
      case False
      show ?thesis
      proof (cases "length en < length start")
        case True
        with False "1.prems" Some found have "m \<in> set (matchAllFrom r n en)"
          by (subst (asm) matchAllFrom_unfold) simp
        with "1.IH"(1) [OF Some, of m] True found len "1.prems" show ?thesis by simp
      next
        case same: False
        show ?thesis
        proof (cases en)
          case Nil
          with False same "1.prems" Some found show ?thesis
            by (subst (asm) matchAllFrom_unfold) simp
        next
          case (Cons c t)
          with False same "1.prems" Some found have "m \<in> set (matchAllFrom r n t)"
            by (subst (asm) matchAllFrom_unfold) simp
          moreover have "\<not> length (fst (snd found)) < length (fst found)" "fst (snd found) = c # t"
            using same Cons found by simp_all
          ultimately show ?thesis
            using "1.IH"(2) [OF Some, of c t m] len "1.prems" Cons by simp
        qed
      qed
    qed
  qed
qed

lemma matchAllFrom_sorted:
  "length s \<le> n \<Longrightarrow>
     sorted_wrt (\<lambda>a b. index a + length (whole a) \<le> index b) (matchAllFrom r n s)"
proof (induction r n s rule: matchAllFrom.induct)
  case (1 r n s)
  show ?case
  proof (cases "search r n s")
    case None
    then show ?thesis by (subst matchAllFrom_unfold) simp
  next
    case (Some found)
    obtain start en caps where found: "found = (start, en, caps)" by (cases found) auto
    from search_len [of r n s start "(en, caps)"] Some found
    have len: "length start \<le> length s" "length en \<le> length start" by auto
    have stop: "index (mkMatch n found) + length (whole (mkMatch n found)) = n - length en"
      using len "1.prems" by (simp add: mkMatch_def found)
    show ?thesis
    proof (cases "length en < length start")
      case True
      have "sorted_wrt (\<lambda>a b. index a + length (whole a) \<le> index b) (matchAllFrom r n en)"
        using "1.IH"(1) [OF Some] True found len "1.prems" by simp
      moreover have "\<forall>m \<in> set (matchAllFrom r n en). n - length en \<le> index m"
        using matchAllFrom_index [of en n _ r] len "1.prems" by simp
      ultimately show ?thesis
        using Some True found stop by (subst matchAllFrom_unfold) simp
    next
      case same: False
      show ?thesis
      proof (cases en)
        case Nil
        with same Some found show ?thesis by (subst matchAllFrom_unfold) simp
      next
        case (Cons c t)
        have e: "\<not> length (fst (snd found)) < length (fst found)" "fst (snd found) = c # t"
          using same Cons found by simp_all
        have "sorted_wrt (\<lambda>a b. index a + length (whole a) \<le> index b) (matchAllFrom r n t)"
          using "1.IH"(2) [OF Some e] Cons len "1.prems" by simp
        moreover have "\<forall>m \<in> set (matchAllFrom r n t). n - length en \<le> index m"
        proof
          fix m assume "m \<in> set (matchAllFrom r n t)"
          from matchAllFrom_index [OF _ this] Cons len "1.prems"
          show "n - length en \<le> index m" by simp
        qed
        ultimately show ?thesis
          using Some same found stop Cons by (subst matchAllFrom_unfold) simp
      qed
    qed
  qed
qed

lemma matchAll_sorted:
  "sorted_wrt (\<lambda>a b. index a + length (whole a) \<le> index b) (matchAll line r)"
  by (simp add: matchAll_def matchAllFrom_sorted)

lemma buttonNode_type: "nodeType (buttonNode btn) = button"
  by (simp add: buttonNode_def Let_def split: option.splits)

lemma parseLine_fields:
  "match line headerRe = None \<Longrightarrow> 2 \<le> length (matchAll line fieldPattern) \<Longrightarrow>
     parseLine line = Some (Container (map fieldNode (matchAll line fieldPattern)))"
  by (simp add: parseLine_def Let_def)

lemma parseLine_container_buttons:
  assumes "length (matchAll line fieldPattern) \<le> 1" "parseLine line = Some (Container cs)"
  shows "cs = map buttonNode (map whole (matchAll line buttonsRe))"
  using assms by (auto simp: parseLine_def Let_def split: option.splits if_splits)

text \<open>The line is one label and one marker: one of the single-field patterns matches it.\<close>

definition singleFieldLine :: "string \<Rightarrow> bool" where
  "singleFieldLine line =
     (match line passwordRe \<noteq> None \<or> match line textareaRe \<noteq> None
      \<or> match line inputRe \<noteq> None \<or> match line checkboxRe \<noteq> None
      \<or> match line dropdownWithOptionsRe \<noteq> None \<or> match line dropdownRe \<noteq> None)"

definition isLeaf :: "MarkdownNode \<Rightarrow> bool" where
  "isLeaf n = (nodeType n = input \<or> nodeType n = textarea \<or> nodeType n = checkbox
     \<or> nodeType n = dropdown \<or> nodeType n = radiogroup)"

lemma parseLine_single_field:
  assumes "match line headerRe = None" "length (matchAll line fieldPattern) \<le> 1"
    "singleFieldLine line"
  shows "\<exists>n. parseLine line = Some n \<and> isLeaf n"
  using assms
  by (auto simp: parseLine_def Let_def singleFieldLine_def isLeaf_def split: option.splits)

text \<open>
  The groups that take part in every match of a pattern: those outside every
  alternative and every quantifier. Where the parser reads a group as a string, it is
  one of these, so the read never meets \<^verbatim>\<open>undefined\<close>.
\<close>

primrec sure :: "regex \<Rightarrow> nat set" where
  "sure (Atom c) = {}"
| "sure Bol = {}"
| "sure Eol = {}"
| "sure Eps = {}"
| "sure (Seq r1 r2) = sure r1 \<union> sure r2"
| "sure (Alt r1 r2) = sure r1 \<inter> sure r2"
| "sure (Star greedy r) = {}"
| "sure (Group i r) = insert i (sure r)"

lemma iter_caps_mono:
  assumes "\<And>a b. b \<in> set (f a) \<Longrightarrow> map_of (snd a) i \<noteq> None \<Longrightarrow> map_of (snd b) i \<noteq> None"
  shows "st' \<in> set (iter g f k st) \<Longrightarrow> map_of (snd st) i \<noteq> None \<Longrightarrow> map_of (snd st') i \<noteq> None"
proof (induction k arbitrary: st st')
  case 0
  then show ?case by simp
next
  case (Suc k)
  have "st' = st \<or> (\<exists>mid \<in> set (f st). st' \<in> set (iter g f k mid))"
    using Suc.prems(1) by (auto simp: Let_def split: if_splits)
  then show ?case
  proof
    assume "st' = st"
    with Suc.prems show ?thesis by simp
  next
    assume "\<exists>mid \<in> set (f st). st' \<in> set (iter g f k mid)"
    then obtain mid where mid: "mid \<in> set (f st)" "st' \<in> set (iter g f k mid)" by blast
    from assms [OF mid(1) Suc.prems(2)] Suc.IH [OF mid(2)] show ?thesis by blast
  qed
qed

lemma run_caps_mono:
  "st' \<in> set (run r n st) \<Longrightarrow> map_of (snd st) i \<noteq> None \<Longrightarrow> map_of (snd st') i \<noteq> None"
proof (induction r arbitrary: st st')
  case (Atom c)
  then show ?case by (cases "fst st") (auto split: if_splits)
next
  case (Seq r1 r2)
  then obtain mid where "mid \<in> set (run r1 n st)" "st' \<in> set (run r2 n mid)"
    by auto
  with Seq.IH(1) [of mid st] Seq.IH(2) [of st' mid] Seq.prems(2) show ?case by blast
next
  case (Star g r)
  have "st' \<in> set (iter g (run r n) (length (fst st)) st)"
    using Star.prems by simp
  then show ?case
  proof (rule iter_caps_mono [rotated])
    show "map_of (snd st) i \<noteq> None" by fact
  next
    fix a b
    assume "b \<in> set (run r n a)" "map_of (snd a) i \<noteq> None"
    then show "map_of (snd b) i \<noteq> None" by (rule Star.IH)
  qed
next
  case (Group j r)
  from Group.prems(1) obtain s0 where s0: "s0 \<in> set (run r n st)"
    and st': "st' = (fst s0, (j, take (length (fst st) - length (fst s0)) (fst st)) # snd s0)"
    by auto
  from Group.IH [OF s0 Group.prems(2)] show ?case by (simp add: st')
qed (auto split: if_splits)

lemma run_sure: "st' \<in> set (run r n st) \<Longrightarrow> i \<in> sure r \<Longrightarrow> map_of (snd st') i \<noteq> None"
proof (induction r arbitrary: st st')
  case (Seq r1 r2)
  then obtain mid where mid: "mid \<in> set (run r1 n st)" "st' \<in> set (run r2 n mid)"
    by auto
  show ?case
  proof (cases "i \<in> sure r1")
    case True
    from Seq.IH(1) [OF mid(1) True] run_caps_mono [OF mid(2)] show ?thesis by blast
  next
    case False
    with Seq.prems(2) have "i \<in> sure r2" by simp
    from Seq.IH(2) [OF mid(2) this] show ?thesis .
  qed
next
  case (Alt r1 r2)
  from Alt.prems have "st' \<in> set (run r1 n st) \<or> st' \<in> set (run r2 n st)"
    and "i \<in> sure r1" "i \<in> sure r2"
    by simp_all
  with Alt.IH show ?case by blast
next
  case (Group j r)
  from Group.prems(1) obtain s0 where s0: "s0 \<in> set (run r n st)"
    and st': "st' = (fst s0, (j, take (length (fst st) - length (fst s0)) (fst st)) # snd s0)"
    by auto
  show ?case
  proof (cases "i = j")
    case True
    then show ?thesis by (simp add: st')
  next
    case False
    with Group.prems(2) have "i \<in> sure r" by simp
    from Group.IH [OF s0 this] False show ?thesis by (simp add: st')
  qed
qed auto

lemma match_sure: "match s r = Some mt \<Longrightarrow> i \<in> sure r \<Longrightarrow> group mt i \<noteq> None"
proof -
  assume "match s r = Some mt" and i: "i \<in> sure r"
  then obtain start st' where found: "search r (length s) s = Some (start, st')"
    and mt: "mt = mkMatch (length s) (start, st')"
    by (auto simp: match_def)
  from run_sure [OF search_mem [OF found] i] show ?thesis
    by (simp add: mt mkMatch_def group_def)
qed

lemma matchAllFrom_sure:
  "m \<in> set (matchAllFrom r n s) \<Longrightarrow> i \<in> sure r \<Longrightarrow> group m i \<noteq> None"
proof (induction r n s arbitrary: m rule: matchAllFrom.induct)
  case (1 r n s)
  show ?case
  proof (cases "search r n s")
    case None
    with "1.prems" show ?thesis by (subst (asm) matchAllFrom_unfold) simp
  next
    case (Some found)
    obtain start st' where found: "found = (start, st')" by (cases found) auto
    show ?thesis
    proof (cases "m = mkMatch n found")
      case True
      from run_sure [OF search_mem [OF Some [unfolded found]] "1.prems"(2)] show ?thesis
        by (simp add: True found mkMatch_def group_def)
    next
      case False
      show ?thesis
      proof (cases "length (fst (snd found)) < length (fst found)")
        case True
        with False "1.prems" Some have "m \<in> set (matchAllFrom r n (fst (snd found)))"
          by (subst (asm) matchAllFrom_unfold) simp
        from "1.IH"(1) [OF Some True this "1.prems"(2)] show ?thesis .
      next
        case same: False
        show ?thesis
        proof (cases "fst (snd found)")
          case Nil
          with False same "1.prems" Some show ?thesis
            by (subst (asm) matchAllFrom_unfold) simp
        next
          case (Cons c t)
          with False same "1.prems" Some have "m \<in> set (matchAllFrom r n t)"
            by (subst (asm) matchAllFrom_unfold) simp
          from "1.IH"(2) [OF Some same Cons this "1.prems"(2)] show ?thesis .
        qed
      qed
    qed
  qed
qed

text \<open>Every group that \<open>gstr\<close> reads in the parser, with the pattern it is read from.\<close>

lemma groups_read_are_sure:
  "1 \<in> sure boldItalicRe" "1 \<in> sure boldRe" "1 \<in> sure italicRe"
  "1 \<in> sure cardRe" "1 \<in> sure gridRe" "1 \<in> sure divRe"
  "1 \<in> sure headerRe" "2 \<in> sure headerRe"
  "1 \<in> sure fieldPattern" "2 \<in> sure fieldPattern" "1 \<in> sure optionsRe"
  "1 \<in> sure passwordRe" "1 \<in> sure textareaRe" "1 \<in> sure inputRe" "1 \<in> sure checkboxRe"
  "1 \<in> sure radioGroupRe" "2 \<in> sure radioGroupRe"
  "1 \<in> sure dropdownWithOptionsRe" "2 \<in> sure dropdownWithOptionsRe" "1 \<in> sure dropdownRe"
  "1 \<in> sure imageRe" "2 \<in> sure imageRe"
  "1 \<in> sure innerRe" "2 \<in> sure innerRe" "3 \<in> sure innerRe"
  "1 \<in> sure defaultButtonRe" "1 \<in> sure buttonRe"
  by (simp_all add: boldItalicRe_def boldRe_def italicRe_def cardRe_def gridRe_def divRe_def
      headerRe_def fieldPattern_def optionsRe_def passwordRe_def textareaRe_def inputRe_def
      checkboxRe_def radioGroupRe_def dropdownWithOptionsRe_def dropdownRe_def imageRe_def
      innerRe_def defaultButtonRe_def buttonRe_def)

text \<open>
  The reads of a group on which the parser calls a method or which it takes as a string:
  the pattern and the number of the group, for every \<open>gstr\<close> of the model.
\<close>

definition groupReads :: "(regex \<times> nat) list" where
  "groupReads =
     [(boldItalicRe, 1), (boldRe, 1), (italicRe, 1),
      (cardRe, 1), (gridRe, 1), (divRe, 1),
      (headerRe, 1), (headerRe, 2),
      (fieldPattern, 1), (fieldPattern, 2), (optionsRe, 1),
      (passwordRe, 1), (textareaRe, 1), (inputRe, 1), (checkboxRe, 1),
      (radioGroupRe, 1), (radioGroupRe, 2),
      (dropdownWithOptionsRe, 1), (dropdownWithOptionsRe, 2), (dropdownRe, 1),
      (imageRe, 1), (imageRe, 2),
      (innerRe, 1), (innerRe, 2), (innerRe, 3),
      (defaultButtonRe, 1), (buttonRe, 1)]"

lemma groupReads_sure: "(p, g) \<in> set groupReads \<Longrightarrow> g \<in> sure p"
  using groups_read_are_sure by (auto simp: groupReads_def)

lemma matchAll_sure: "m \<in> set (matchAll s r) \<Longrightarrow> i \<in> sure r \<Longrightarrow> group m i \<noteq> None"
  unfolding matchAll_def by (rule matchAllFrom_sure)

text \<open>
  The lazy \<^verbatim>\<open>(.+?)\<close> of the pattern \<^verbatim>\<open>/^_\*(.+?)\*_/\<close> reads one character and
  then stops at the first place where \<^verbatim>\<open>*_\<close> follows; it fails if a line terminator
  comes first. \<open>firstStarUnder s\<close> is that place in \<open>s\<close>, the text after the first
  character of the group; \<open>holdsStarUnder s\<close> says that \<^verbatim>\<open>*_\<close> occurs in \<open>s\<close>.
\<close>

fun firstStarUnder :: "string \<Rightarrow> nat option" where
  "firstStarUnder (a # b # r) =
     (if a = CHR ''*'' \<and> b = CHR ''_'' then Some 0
      else if isLineTerminator a then None
      else map_option Suc (firstStarUnder (b # r)))"
| "firstStarUnder _ = None"

fun holdsStarUnder :: "string \<Rightarrow> bool" where
  "holdsStarUnder (a # b # r) = ((a = CHR ''*'' \<and> b = CHR ''_'') \<or> holdsStarUnder (b # r))"
| "holdsStarUnder _ = False"

lemma iter_at_end: "iter g f k ([], c) = [([], c)]"
  by (cases k) (simp_all add: Let_def)

lemma run_star_underscore:
  "run (Seq (chr CHR ''*'') (chr CHR ''_'')) n (s, caps) =
     (case s of
        a # b # r \<Rightarrow> if a = CHR ''*'' \<and> b = CHR ''_'' then [(r, caps)] else []
      | _ \<Rightarrow> [])"
  by (auto split: list.splits)

lemma iter_lazy_dot:
  "iter False (run dot n) (Suc k) (a # s, c)
     = (a # s, c) # (if isLineTerminator a then [] else iter False (run dot n) k (s, c))"
  by (simp add: Let_def)

lemma lazy_head:
  assumes "length s \<le> k"
  shows "(case concat (map (\<lambda>st. run (Seq (chr CHR ''*'') (chr CHR ''_'')) n (fst st, H st))
                 (iter False (run dot n) k (s, c))) of
            [] \<Rightarrow> firstStarUnder s = None
          | st # _ \<Rightarrow> \<exists>j. firstStarUnder s = Some j \<and> st = (drop (j + 2) s, H (drop j s, c)))"
  using assms
proof (induction s arbitrary: k)
  case Nil
  show ?case by (simp add: iter_at_end run_star_underscore del: run.simps)
next
  case (Cons a s)
  then obtain k' where k: "k = Suc k'" by (cases k) auto
  with Cons.prems have k': "length s \<le> k'" by simp
  let ?K = "Seq (chr CHR ''*'') (chr CHR ''_'')"
  show ?case
  proof (cases "\<exists>r. a = CHR ''*'' \<and> s = CHR ''_'' # r")
    case True
    then obtain r where "a = CHR ''*''" "s = CHR ''_'' # r" by blast
    then show ?thesis
      unfolding k by (simp add: iter_lazy_dot run_star_underscore del: run.simps iter.simps)
  next
    case False
    then have here: "run ?K n (a # s, caps) = []" for caps
      by (auto simp: run_star_underscore simp del: run.simps split: list.splits)
    show ?thesis
    proof (cases "isLineTerminator a")
      case True
      have "firstStarUnder (a # s) = None"
        using False True by (cases s) auto
      with True show ?thesis
        unfolding k by (simp add: iter_lazy_dot here del: run.simps iter.simps)
    next
      case nl: False
      have fs: "firstStarUnder (a # s) = map_option Suc (firstStarUnder s)"
        using False nl by (cases s) auto
      let ?C = "concat (map (\<lambda>st. run ?K n (fst st, H st)) (iter False (run dot n) k' (s, c)))"
      have eq: "concat (map (\<lambda>st. run ?K n (fst st, H st)) (iter False (run dot n) k (a # s, c))) = ?C"
        unfolding k using nl by (simp add: iter_lazy_dot here del: run.simps iter.simps)
      note IH = Cons.IH [OF k']
      show ?thesis
      proof (cases ?C)
        case Nil
        from IH have "firstStarUnder s = None" by (simp only: Nil list.case)
        then show ?thesis
          by (simp only: eq fs Nil list.case option.map)
      next
        case (Cons st more)
        from IH have "\<exists>j. firstStarUnder s = Some j \<and> st = (drop (j + 2) s, H (drop j s, c))"
          by (simp only: Cons list.case)
        then obtain j where j: "firstStarUnder s = Some j"
          "st = (drop (j + 2) s, H (drop j s, c))" by blast
        have "firstStarUnder (a # s) = Some (Suc j)
            \<and> st = (drop (Suc j + 2) (a # s), H (drop (Suc j) (a # s), c))"
          using j by (simp add: fs)
        then show ?thesis
          by (simp only: eq Cons list.case) blast
      qed
    qed
  qed
qed


lemma firstStarUnder_bound: "firstStarUnder s = Some j \<Longrightarrow> j + 2 \<le> length s"
  by (induction s arbitrary: j rule: firstStarUnder.induct) (auto split: if_splits)

lemma firstStarUnder_at_end:
  "firstStarUnder (Y @ ''*_'') = Some (length Y)
     \<longleftrightarrow> (\<forall>y \<in> set Y. \<not> isLineTerminator y) \<and> \<not> holdsStarUnder Y"
  by (induction Y rule: holdsStarUnder.induct) auto

lemma run_PlusLazy_dot:
  "\<not> isLineTerminator x \<Longrightarrow>
     run (PlusLazy dot) n (x # u, c) = iter False (run dot n) (length u) (u, c)"
  by simp

lemma run_Group_Seq:
  "run (Seq (Group i r) k) n st =
     concat (map (\<lambda>s0. run k n (fst s0, (i, take (length (fst st) - length (fst s0)) (fst st)) # snd s0))
       (run r n st))"
  by (simp add: comp_def)

lemma run_PlusLazy_dot_fails:
  "isLineTerminator x \<Longrightarrow> run (PlusLazy dot) n (x # u, c) = []"
  "run (PlusLazy dot) n ([], c) = []"
  by simp_all

lemma boldItalic_prefix:
  "run boldItalicRe (length (''_*'' @ s)) (''_*'' @ s, [])
     = run (Seq (Group 1 (PlusLazy dot)) (Seq (chr CHR ''*'') (chr CHR ''_''))) (length (''_*'' @ s)) (s, [])"
  unfolding boldItalicRe_def cat.simps run_Bol_Seq
  by (simp del: run.simps(5,8) add: run.simps(5) [of "chr c" for c])

lemma boldItalic_run_general:
  "(case run boldItalicRe (length (''_*'' @ s)) (''_*'' @ s, []) of
      [] \<Rightarrow> s = [] \<or> isLineTerminator (hd s) \<or> firstStarUnder (tl s) = None
    | st # _ \<Rightarrow> s \<noteq> [] \<and> \<not> isLineTerminator (hd s)
        \<and> (\<exists>j. firstStarUnder (tl s) = Some j \<and> st = (drop (j + 3) s, [(1, take (Suc j) s)])))"
proof (cases s)
  case Nil
  show ?thesis
    by (simp only: boldItalic_prefix run_Group_Seq run_PlusLazy_dot_fails Nil) simp
next
  case (Cons x t)
  show ?thesis
  proof (cases "isLineTerminator x")
    case True
    show ?thesis
      by (simp only: boldItalic_prefix run_Group_Seq run_PlusLazy_dot_fails(1) [OF True] Cons) (simp add: True)
  next
    case False
    let ?K = "Seq (chr CHR ''*'') (chr CHR ''_'')"
    let ?H = "\<lambda>st. (1, take (length (fst (x # t, [] :: (nat \<times> string) list)) - length (fst st))
                      (fst (x # t, [] :: (nat \<times> string) list))) # snd st"
    let ?R = "concat (map (\<lambda>st. run ?K (length (''_*'' @ s)) (fst st, ?H st))
          (iter False (run dot (length (''_*'' @ s))) (length t) (t, [])))"
    have eq: "run boldItalicRe (length (''_*'' @ s)) (''_*'' @ s, []) = ?R"
      by (simp only: boldItalic_prefix run_Group_Seq run_PlusLazy_dot [OF False] Cons)
    have head: "(case ?R of
            [] \<Rightarrow> firstStarUnder t = None
          | st # _ \<Rightarrow> \<exists>j. firstStarUnder t = Some j \<and> st = (drop (j + 2) t, ?H (drop j t, [])))"
      by (rule lazy_head) simp
    show ?thesis
    proof (cases ?R)
      case Nil
      from head have "firstStarUnder t = None" by (simp only: Nil list.case)
      then show ?thesis by (simp only: eq Nil list.case) (simp add: Cons)
    next
      case (Cons st more)
      from head have "\<exists>j. firstStarUnder t = Some j \<and> st = (drop (j + 2) t, ?H (drop j t, []))"
        by (simp only: Cons list.case)
      then obtain j where j: "firstStarUnder t = Some j" "st = (drop (j + 2) t, ?H (drop j t, []))"
        by blast
      from firstStarUnder_bound [OF j(1)] have "j + 2 \<le> length t" .
      then have "st = (drop (j + 3) s, [(1, take (Suc j) s)])"
        using j(2) by (simp add: \<open>s = x # t\<close> eval_nat_numeral)
      with j(1) False show ?thesis
        by (simp only: eq Cons list.case) (simp add: \<open>s = x # t\<close>)
    qed
  qed
qed

lemma boldItalic_match_none:
  assumes "s = [] \<or> isLineTerminator (hd s) \<or> firstStarUnder (tl s) = None"
  shows "match (''_*'' @ s) boldItalicRe = None"
proof -
  have m: "match (''_*'' @ s) boldItalicRe
      = (case run boldItalicRe (length (''_*'' @ s)) (''_*'' @ s, []) of
           [] \<Rightarrow> None
         | st # _ \<Rightarrow> Some (mkMatch (length (''_*'' @ s)) (''_*'' @ s, st)))"
    unfolding boldItalicRe_def cat.simps by (rule match_Bol)
  show ?thesis
  proof (cases "run boldItalicRe (length (''_*'' @ s)) (''_*'' @ s, [])")
    case Nil
    then show ?thesis by (simp only: m list.case)
  next
    case (Cons st more)
    with boldItalic_run_general [of s] assms show ?thesis by auto
  qed
qed

lemma boldItalic_match_some:
  assumes "s \<noteq> []" "\<not> isLineTerminator (hd s)" "firstStarUnder (tl s) = Some j"
  shows "match (''_*'' @ s) boldItalicRe
    = Some \<lparr>index = 0, whole = take (j + 5) (''_*'' @ s), groups = [(1, take (Suc j) s)]\<rparr>"
proof -
  have m: "match (''_*'' @ s) boldItalicRe
      = (case run boldItalicRe (length (''_*'' @ s)) (''_*'' @ s, []) of
           [] \<Rightarrow> None
         | st # _ \<Rightarrow> Some (mkMatch (length (''_*'' @ s)) (''_*'' @ s, st)))"
    unfolding boldItalicRe_def cat.simps by (rule match_Bol)
  from firstStarUnder_bound [OF assms(3)] have len: "j + 3 \<le> length s"
    using assms(1) by (cases s) auto
  show ?thesis
  proof (cases "run boldItalicRe (length (''_*'' @ s)) (''_*'' @ s, [])")
    case Nil
    with boldItalic_run_general [of s] assms show ?thesis by auto
  next
    case (Cons st more)
    with boldItalic_run_general [of s] assms have "st = (drop (j + 3) s, [(1, take (Suc j) s)])"
      by auto
    then show ?thesis
      using len by (simp only: m Cons list.case) (simp add: mkMatch_def add.commute)
  qed
qed


lemma inlineStep_appends: "\<exists>n. snd (inlineStep remaining position ns) = ns @ [n]"
  by (simp add: inlineStep_def Let_def split: option.splits)

lemma inlineLoop_prefix: "\<exists>rest. inlineLoop remaining position ns = ns @ rest"
proof (induction remaining position ns rule: inlineLoop.induct)
  case (1 remaining position ns)
  show ?case
  proof (cases "position < length remaining")
    case False
    then show ?thesis by (subst inlineLoop.simps) simp
  next
    case True
    obtain n where n: "snd (inlineStep remaining position ns) = ns @ [n]"
      using inlineStep_appends by blast
    from 1 [OF True refl] obtain rest where
      "inlineLoop remaining (fst (inlineStep remaining position ns)) (snd (inlineStep remaining position ns))
         = snd (inlineStep remaining position ns) @ rest" by blast
    then have "inlineLoop remaining position ns = ns @ n # rest"
      using True by (subst inlineLoop.simps) (simp add: Let_def n)
    then show ?thesis by blast
  qed
qed

lemma first_token:
  assumes "parseInlineEmphasis str = [BoldChildren [Italic X]]"
  shows "\<exists>m. match str boldItalicRe = Some m \<and> gstr m 1 = X"
proof -
  have ne: "0 < length str"
  proof (rule ccontr)
    assume "\<not> 0 < length str"
    then have "inlineLoop str 0 [] = []" by (subst inlineLoop.simps) simp
    with assms show False by (simp add: parseInlineEmphasis_def)
  qed
  obtain n where n: "snd (inlineStep str 0 []) = [n]"
    using inlineStep_appends [of str 0 "[]"] by auto
  obtain rest where "inlineLoop str (fst (inlineStep str 0 [])) (snd (inlineStep str 0 []))
      = snd (inlineStep str 0 []) @ rest"
    using inlineLoop_prefix by blast
  then have "inlineLoop str 0 [] = n # rest"
    using ne by (subst inlineLoop.simps) (simp add: Let_def n)
  with assms have "n = BoldChildren [Italic X]"
    by (simp add: parseInlineEmphasis_def)
  with n show ?thesis
    by (auto simp: inlineStep_def Let_def split: option.splits if_splits)
qed

lemma boldItalic_tokens_iff:
  "parseInlineEmphasis (''_*'' @ X @ ''*_'') = [BoldChildren [Italic X]]
     \<longleftrightarrow> X \<noteq> [] \<and> (\<forall>x \<in> set X. \<not> isLineTerminator x) \<and> \<not> holdsStarUnder (tl X)"
proof
  let ?s = "X @ ''*_''"
  let ?text = "''_*'' @ ?s"
  assume "parseInlineEmphasis (''_*'' @ X @ ''*_'') = [BoldChildren [Italic X]]"
  from first_token [OF this] obtain m where m: "match ?text boldItalicRe = Some m" "gstr m 1 = X"
    by blast
  have s: "?s \<noteq> []" by simp
  from m(1) boldItalic_match_none [of ?s] have nl: "\<not> isLineTerminator (hd ?s)"
    and "firstStarUnder (tl ?s) \<noteq> None" by auto
  then obtain j where j: "firstStarUnder (tl ?s) = Some j" by auto
  from boldItalic_match_some [OF s nl j] m(1)
  have "m = \<lparr>index = 0, whole = take (j + 5) ?text, groups = [(1, take (Suc j) ?s)]\<rparr>"
    by simp
  then have "gstr m 1 = take (Suc j) ?s" by (simp add: gstr_def group_def)
  with m(2) have "take (Suc j) ?s = X" by simp
  then have "length (take (Suc j) ?s) = length X" by simp
  then have len: "Suc j = length X" by simp
  then have X: "X \<noteq> []" by auto
  with j len have "firstStarUnder (tl X @ ''*_'') = Some (length (tl X))" by simp
  then have "(\<forall>y \<in> set (tl X). \<not> isLineTerminator y) \<and> \<not> holdsStarUnder (tl X)"
    by (rule iffD1 [OF firstStarUnder_at_end])
  moreover from nl X have "\<not> isLineTerminator (hd X)" by simp
  ultimately show "X \<noteq> [] \<and> (\<forall>x \<in> set X. \<not> isLineTerminator x) \<and> \<not> holdsStarUnder (tl X)"
    using X by (cases X) auto
next
  let ?s = "X @ ''*_''"
  let ?text = "''_*'' @ ?s"
  assume c: "X \<noteq> [] \<and> (\<forall>x \<in> set X. \<not> isLineTerminator x) \<and> \<not> holdsStarUnder (tl X)"
  then obtain x t where X: "X = x # t" by (cases X) auto
  have s: "?s \<noteq> []" by simp
  from c X have nl: "\<not> isLineTerminator (hd ?s)" by simp
  from c X have "(\<forall>y \<in> set t. \<not> isLineTerminator y) \<and> \<not> holdsStarUnder t" by simp
  then have "firstStarUnder (t @ ''*_'') = Some (length t)"
    by (rule iffD2 [OF firstStarUnder_at_end])
  then have j: "firstStarUnder (tl ?s) = Some (length t)" by (simp add: X)
  have mt: "match ?text boldItalicRe
      = Some \<lparr>index = 0, whole = ?text, groups = [(1, X)]\<rparr>"
    using boldItalic_match_some [OF s nl j] by (simp add: X)
  have step: "inlineStep ?text 0 [] = (length ?text, [BoldChildren [Italic X]])"
    using mt by (simp add: inlineStep_def gstr_def group_def)
  have "inlineLoop ?text 0 [] = inlineLoop ?text (length ?text) [BoldChildren [Italic X]]"
    by (subst inlineLoop.simps) (simp add: step Let_def del: append.simps)
  also have "\<dots> = [BoldChildren [Italic X]]"
    by (subst inlineLoop.simps) simp
  finally show "parseInlineEmphasis (''_*'' @ X @ ''*_'') = [BoldChildren [Italic X]]"
    by (simp only: parseInlineEmphasis_def)
qed

section \<open>The call stack and the reads of lines\<close>

text \<open>
  Two things can make the JavaScript program throw where the functions above return a
  value. A read \<^verbatim>\<open>lines[i]\<close> beyond the end of the array gives \<^verbatim>\<open>undefined\<close>, and a
  method called on it throws a \<^verbatim>\<open>TypeError\<close>. And \<^verbatim>\<open>parseCard\<close> and
  \<^verbatim>\<open>parseContainer\<close> call each other once for every nested opener, with nothing in the
  source that bounds the depth of these calls, while the call stack of a JavaScript engine
  is finite: a call that finds no room on it throws a \<^verbatim>\<open>RangeError\<close>. The functions of
  this section are the parser once more with both made explicit: a result is \<open>Inr\<close> of
  the value returned or \<open>Inl\<close> of the error thrown, and \<open>stack\<close> is the number of nested
  calls of \<^verbatim>\<open>parseCard\<close> and \<^verbatim>\<open>parseContainer\<close> for which the stack has room (the
  engine decides it, so it is a parameter).
\<close>

datatype error = RangeError | TypeError

text \<open>
  \<^verbatim>\<open>this.options.preserveWhitespace ? lines[i] : lines[i].trim()\<close> at any index. Beyond
  the end \<^verbatim>\<open>.trim()\<close> throws; with \<^verbatim>\<open>preserveWhitespace\<close> the line is \<^verbatim>\<open>undefined\<close>
  and the first method called on it throws. The model lets the read itself fail in both
  cases.
\<close>

definition lineAtS :: "ParserOptions \<Rightarrow> string list \<Rightarrow> nat \<Rightarrow> error + string" where
  "lineAtS opts lines i = (if i < length lines then Inr (lineAt opts lines i) else Inl TypeError)"

text \<open>
  \<^verbatim>\<open>parseCard\<close> and \<^verbatim>\<open>parseContainer\<close> with their loops. Every call takes one place
  on the stack, and the loop of a call runs with what is left: a call with no room left
  throws.
\<close>

function parseCardS :: "nat \<Rightarrow> ParserOptions \<Rightarrow> string list \<Rightarrow> nat \<Rightarrow> string option \<Rightarrow> error + (MarkdownNode \<times> nat)"
  and cardLoopS :: "nat \<Rightarrow> ParserOptions \<Rightarrow> string list \<Rightarrow> nat \<Rightarrow> nat \<Rightarrow> MarkdownNode list \<Rightarrow> error + (MarkdownNode list \<times> nat)"
  and parseContainerS :: "nat \<Rightarrow> ParserOptions \<Rightarrow> string list \<Rightarrow> nat \<Rightarrow> ContainerType \<Rightarrow> string \<Rightarrow> error + (MarkdownNode \<times> nat)"
  and containerLoopS :: "nat \<Rightarrow> ParserOptions \<Rightarrow> string list \<Rightarrow> nat \<Rightarrow> nat \<Rightarrow> MarkdownNode list \<Rightarrow> error + (MarkdownNode list \<times> nat)"
where
  "parseCardS stack opts lines startIndex title =
     (case stack of
        0 \<Rightarrow> Inl RangeError
      | Suc room \<Rightarrow>
          (case cardLoopS room opts lines (startIndex + 1) 1 [] of
             Inl e \<Rightarrow> Inl e
           | Inr done \<Rightarrow>
               Inr (Card (case title of
                            None \<Rightarrow> None
                          | Some t \<Rightarrow> if t = [] then None else Some (parseInlineEmphasis t))
                         (fst done),
                    snd done + 1)))"
| "cardLoopS stack opts lines i depth cardChildren =
     (if i < length lines \<and> depth > 0 then
        (case lineAtS opts lines i of
           Inl e \<Rightarrow> Inl e
         | Inr cardLine \<Rightarrow>
        (let depth' = (if cardLine = ''--]'' then depth - 1 else depth)
         in if cardLine = ''--]'' \<and> depth' = 0 then Inr (cardChildren, i)
            else if match cardLine cardRe \<noteq> None then
              (let nestedTitle = (case match cardLine cardRe of
                                    None \<Rightarrow> None
                                  | Some mt \<Rightarrow> orUndefined (gstr mt 1))
               in case parseCardS stack opts lines i nestedTitle of
                    Inl e \<Rightarrow> Inl e
                  | Inr result \<Rightarrow>
                      cardLoopS stack opts lines (snd result) depth' (cardChildren @ [fst result]))
            else if match cardLine gridRe \<noteq> None then
              (let nestedConfig = (case match cardLine gridRe of
                                     None \<Rightarrow> []
                                   | Some mt \<Rightarrow> gstr mt 1)
               in case parseContainerS stack opts lines i grid_type nestedConfig of
                    Inl e \<Rightarrow> Inl e
                  | Inr result \<Rightarrow>
                      cardLoopS stack opts lines (snd result) depth' (cardChildren @ [fst result]))
            else if match cardLine divRe \<noteq> None \<and> \<not> includesChar cardLine CHR '']'' then
              (let nestedConfig = (case match cardLine divRe of
                                     None \<Rightarrow> []
                                   | Some mt \<Rightarrow> gstr mt 1)
               in case parseContainerS stack opts lines i div_type nestedConfig of
                    Inl e \<Rightarrow> Inl e
                  | Inr result \<Rightarrow>
                      cardLoopS stack opts lines (snd result) depth' (cardChildren @ [fst result]))
            else
              cardLoopS stack opts lines (i + 1) depth'
                (if cardLine \<noteq> [] then
                   (case parseLine cardLine of
                      Some childNode \<Rightarrow> cardChildren @ [childNode]
                    | None \<Rightarrow> cardChildren)
                 else cardChildren)))
      else Inr (cardChildren, i))"
| "parseContainerS stack opts lines startIndex type config =
     (case stack of
        0 \<Rightarrow> Inl RangeError
      | Suc room \<Rightarrow>
          (case containerLoopS room opts lines (startIndex + 1) 1 [] of
             Inl e \<Rightarrow> Inl e
           | Inr done \<Rightarrow>
               Inr (case type of
                      grid_type \<Rightarrow> Grid config (fst done)
                    | div_type \<Rightarrow> Div (if config \<noteq> [] then Some config else None) (fst done),
                    snd done + 1)))"
| "containerLoopS stack opts lines i depth containerChildren =
     (if i < length lines \<and> depth > 0 then
        (case lineAtS opts lines i of
           Inl e \<Rightarrow> Inl e
         | Inr containerLine \<Rightarrow>
        (let depth' = (if containerLine = '']'' then depth - 1 else depth)
         in if containerLine = '']'' \<and> depth' = 0 then Inr (containerChildren, i)
            else if match containerLine cardRe \<noteq> None then
              (let nestedTitle = (case match containerLine cardRe of
                                    None \<Rightarrow> None
                                  | Some mt \<Rightarrow> orUndefined (gstr mt 1))
               in case parseCardS stack opts lines i nestedTitle of
                    Inl e \<Rightarrow> Inl e
                  | Inr result \<Rightarrow>
                      containerLoopS stack opts lines (snd result) depth' (containerChildren @ [fst result]))
            else if match containerLine gridRe \<noteq> None then
              (let nestedConfig = (case match containerLine gridRe of
                                     None \<Rightarrow> []
                                   | Some mt \<Rightarrow> gstr mt 1)
               in case parseContainerS stack opts lines i grid_type nestedConfig of
                    Inl e \<Rightarrow> Inl e
                  | Inr result \<Rightarrow>
                      containerLoopS stack opts lines (snd result) depth' (containerChildren @ [fst result]))
            else if match containerLine divRe \<noteq> None \<and> \<not> includesChar containerLine CHR '']'' then
              (let nestedConfig = (case match containerLine divRe of
                                     None \<Rightarrow> []
                                   | Some mt \<Rightarrow> gstr mt 1)
               in case parseContainerS stack opts lines i div_type nestedConfig of
                    Inl e \<Rightarrow> Inl e
                  | Inr result \<Rightarrow>
                      containerLoopS stack opts lines (snd result) depth' (containerChildren @ [fst result]))
            else
              containerLoopS stack opts lines (i + 1) depth'
                (if containerLine \<noteq> [] then
                   (case parseLine containerLine of
                      Some childNode \<Rightarrow> containerChildren @ [childNode]
                    | None \<Rightarrow> containerChildren)
                 else containerChildren)))
      else Inr (containerChildren, i))"
  by pat_completeness auto

text \<open>Termination, as for \<open>parseCard\<close>: a call that returns, returns an index beyond its opener.\<close>

lemma boundsS_partial:
  "parseCardS_cardLoopS_parseContainerS_containerLoopS_dom (Inl (Inl (stack, opts, lines, startIndex, title)))
     \<Longrightarrow> parseCardS stack opts lines startIndex title = Inr r \<Longrightarrow> startIndex < snd r"
  "parseCardS_cardLoopS_parseContainerS_containerLoopS_dom (Inl (Inr (stack, opts, lines, i, depth, cs)))
     \<Longrightarrow> cardLoopS stack opts lines i depth cs = Inr r' \<Longrightarrow> i \<le> snd r'"
  "parseCardS_cardLoopS_parseContainerS_containerLoopS_dom (Inr (Inl (stack, opts, lines, startIndex, type, config)))
     \<Longrightarrow> parseContainerS stack opts lines startIndex type config = Inr r \<Longrightarrow> startIndex < snd r"
  "parseCardS_cardLoopS_parseContainerS_containerLoopS_dom (Inr (Inr (stack, opts, lines, i, depth, cs)))
     \<Longrightarrow> containerLoopS stack opts lines i depth cs = Inr r' \<Longrightarrow> i \<le> snd r'"
proof (induct arbitrary: r and r' and r and r'
    rule: parseCardS_cardLoopS_parseContainerS_containerLoopS.pinduct)
  case (1 stack opts lines startIndex title)
  note dom = 1(1) and IH = 1(2) and res = 1(3)
  from res obtain room d where d: "stack = Suc room"
    "cardLoopS room opts lines (startIndex + 1) 1 [] = Inr d" "snd r = snd d + 1"
    by (auto simp: parseCardS.psimps [OF dom] split: nat.splits sum.splits)
  from IH [OF d(1,2)] d(3) show ?case by simp
next
  case (2 stack opts lines i depth cardChildren)
  note dom = 2(1) and IH = 2(2-8) and res = 2(9)
  show ?case
  proof (cases "i < length lines \<and> 0 < depth")
    case False
    with res show ?thesis by (auto simp: cardLoopS.psimps [OF dom])
  next
    case run: True
    then obtain x where x: "lineAtS opts lines i = Inr x"
      by (simp add: lineAtS_def)
    define xa where xa: "xa = (if x = ''--]'' then depth - 1 else depth)"
    show ?thesis
    proof (cases "x = ''--]'' \<and> xa = 0")
      case True
      with res run x xa show ?thesis by (auto simp: cardLoopS.psimps [OF dom] Let_def)
    next
      case opn: False
      show ?thesis
      proof (cases "match x cardRe \<noteq> None")
        case True
        define xb where xb: "xb = (case match x cardRe of None \<Rightarrow> None | Some mt \<Rightarrow> orUndefined (gstr mt 1))"
        show ?thesis
        proof (cases "parseCardS stack opts lines i xb")
          case (Inl e)
          with res run x opn True show ?thesis
            by (simp add: cardLoopS.psimps [OF dom] Let_def xa [symmetric] xb [symmetric])
        next
          case (Inr result)
          from IH(1) [OF run x xa opn True xb Inr] have 1: "i < snd result" .
          from res run x opn True Inr
          have "cardLoopS stack opts lines (snd result) xa (cardChildren @ [fst result]) = Inr r'"
            by (simp add: cardLoopS.psimps [OF dom] Let_def xa [symmetric] xb [symmetric])
          from IH(2) [OF run x xa opn True xb Inr this] 1 show ?thesis by simp
        qed
      next
        case nocard: False
        show ?thesis
        proof (cases "match x gridRe \<noteq> None")
          case True
          define xb where xb: "xb = (case match x gridRe of None \<Rightarrow> [] | Some mt \<Rightarrow> gstr mt 1)"
          show ?thesis
          proof (cases "parseContainerS stack opts lines i grid_type xb")
            case (Inl e)
            with res run x opn nocard True show ?thesis
              by (simp add: cardLoopS.psimps [OF dom] Let_def xa [symmetric] xb [symmetric])
          next
            case (Inr result)
            from IH(3) [OF run x xa opn nocard True xb Inr] have 1: "i < snd result" .
            from res run x opn nocard True Inr
            have "cardLoopS stack opts lines (snd result) xa (cardChildren @ [fst result]) = Inr r'"
              by (simp add: cardLoopS.psimps [OF dom] Let_def xa [symmetric] xb [symmetric])
            from IH(4) [OF run x xa opn nocard True xb Inr this] 1 show ?thesis by simp
          qed
        next
          case nogrid: False
          show ?thesis
          proof (cases "match x divRe \<noteq> None \<and> \<not> includesChar x CHR '']''")
            case True
            define xb where xb: "xb = (case match x divRe of None \<Rightarrow> [] | Some mt \<Rightarrow> gstr mt 1)"
            show ?thesis
            proof (cases "parseContainerS stack opts lines i div_type xb")
              case (Inl e)
              with res run x opn nocard nogrid True show ?thesis
                by (simp add: cardLoopS.psimps [OF dom] Let_def xa [symmetric] xb [symmetric])
            next
              case (Inr result)
              from IH(5) [OF run x xa opn nocard nogrid True xb Inr] have 1: "i < snd result" .
              from res run x opn nocard nogrid True Inr
              have "cardLoopS stack opts lines (snd result) xa (cardChildren @ [fst result]) = Inr r'"
                by (simp add: cardLoopS.psimps [OF dom] Let_def xa [symmetric] xb [symmetric])
              from IH(6) [OF run x xa opn nocard nogrid True xb Inr this] 1 show ?thesis by simp
            qed
          next
            case nodiv: False
            have "cardLoopS stack opts lines i depth cardChildren = cardLoopS stack opts lines (i + 1) xa
                (if x \<noteq> [] then (case parseLine x of Some childNode \<Rightarrow> cardChildren @ [childNode] | None \<Rightarrow> cardChildren)
                 else cardChildren)"
              by (simp only: cardLoopS.psimps [OF dom] if_P [OF run] x sum.case Let_def xa [symmetric]
                  if_not_P [OF opn] if_not_P [OF nocard] if_not_P [OF nogrid] if_not_P [OF nodiv])
            with res have "cardLoopS stack opts lines (i + 1) xa
                (if x \<noteq> [] then (case parseLine x of Some childNode \<Rightarrow> cardChildren @ [childNode] | None \<Rightarrow> cardChildren)
                 else cardChildren) = Inr r'"
              by simp
            from IH(7) [OF run x xa opn nocard nogrid nodiv this] show ?thesis by simp
          qed
        qed
      qed
    qed
  qed
next
  case (3 stack opts lines startIndex type config)
  note dom = 3(1) and IH = 3(2) and res = 3(3)
  from res obtain room d where d: "stack = Suc room"
    "containerLoopS room opts lines (startIndex + 1) 1 [] = Inr d" "snd r = snd d + 1"
    by (auto simp: parseContainerS.psimps [OF dom] split: nat.splits sum.splits)
  from IH [OF d(1,2)] d(3) show ?case by simp
next
  case (4 stack opts lines i depth containerChildren)
  note dom = 4(1) and IH = 4(2-8) and res = 4(9)
  show ?case
  proof (cases "i < length lines \<and> 0 < depth")
    case False
    with res show ?thesis by (auto simp: containerLoopS.psimps [OF dom])
  next
    case run: True
    then obtain x where x: "lineAtS opts lines i = Inr x"
      by (simp add: lineAtS_def)
    define xa where xa: "xa = (if x = '']'' then depth - 1 else depth)"
    show ?thesis
    proof (cases "x = '']'' \<and> xa = 0")
      case True
      with res run x xa show ?thesis by (auto simp: containerLoopS.psimps [OF dom] Let_def)
    next
      case opn: False
      show ?thesis
      proof (cases "match x cardRe \<noteq> None")
        case True
        define xb where xb: "xb = (case match x cardRe of None \<Rightarrow> None | Some mt \<Rightarrow> orUndefined (gstr mt 1))"
        show ?thesis
        proof (cases "parseCardS stack opts lines i xb")
          case (Inl e)
          with res run x opn True show ?thesis
            by (simp add: containerLoopS.psimps [OF dom] Let_def xa [symmetric] xb [symmetric])
        next
          case (Inr result)
          from IH(1) [OF run x xa opn True xb Inr] have 1: "i < snd result" .
          from res run x opn True Inr
          have "containerLoopS stack opts lines (snd result) xa (containerChildren @ [fst result]) = Inr r'"
            by (simp add: containerLoopS.psimps [OF dom] Let_def xa [symmetric] xb [symmetric])
          from IH(2) [OF run x xa opn True xb Inr this] 1 show ?thesis by simp
        qed
      next
        case nocard: False
        show ?thesis
        proof (cases "match x gridRe \<noteq> None")
          case True
          define xb where xb: "xb = (case match x gridRe of None \<Rightarrow> [] | Some mt \<Rightarrow> gstr mt 1)"
          show ?thesis
          proof (cases "parseContainerS stack opts lines i grid_type xb")
            case (Inl e)
            with res run x opn nocard True show ?thesis
              by (simp add: containerLoopS.psimps [OF dom] Let_def xa [symmetric] xb [symmetric])
          next
            case (Inr result)
            from IH(3) [OF run x xa opn nocard True xb Inr] have 1: "i < snd result" .
            from res run x opn nocard True Inr
            have "containerLoopS stack opts lines (snd result) xa (containerChildren @ [fst result]) = Inr r'"
              by (simp add: containerLoopS.psimps [OF dom] Let_def xa [symmetric] xb [symmetric])
            from IH(4) [OF run x xa opn nocard True xb Inr this] 1 show ?thesis by simp
          qed
        next
          case nogrid: False
          show ?thesis
          proof (cases "match x divRe \<noteq> None \<and> \<not> includesChar x CHR '']''")
            case True
            define xb where xb: "xb = (case match x divRe of None \<Rightarrow> [] | Some mt \<Rightarrow> gstr mt 1)"
            show ?thesis
            proof (cases "parseContainerS stack opts lines i div_type xb")
              case (Inl e)
              with res run x opn nocard nogrid True show ?thesis
                by (simp add: containerLoopS.psimps [OF dom] Let_def xa [symmetric] xb [symmetric])
            next
              case (Inr result)
              from IH(5) [OF run x xa opn nocard nogrid True xb Inr] have 1: "i < snd result" .
              from res run x opn nocard nogrid True Inr
              have "containerLoopS stack opts lines (snd result) xa (containerChildren @ [fst result]) = Inr r'"
                by (simp add: containerLoopS.psimps [OF dom] Let_def xa [symmetric] xb [symmetric])
              from IH(6) [OF run x xa opn nocard nogrid True xb Inr this] 1 show ?thesis by simp
            qed
          next
            case nodiv: False
            have "containerLoopS stack opts lines i depth containerChildren = containerLoopS stack opts lines (i + 1) xa
                (if x \<noteq> [] then (case parseLine x of Some childNode \<Rightarrow> containerChildren @ [childNode] | None \<Rightarrow> containerChildren)
                 else containerChildren)"
              by (simp only: containerLoopS.psimps [OF dom] if_P [OF run] x sum.case Let_def xa [symmetric]
                  if_not_P [OF opn] if_not_P [OF nocard] if_not_P [OF nogrid] if_not_P [OF nodiv])
            with res have "containerLoopS stack opts lines (i + 1) xa
                (if x \<noteq> [] then (case parseLine x of Some childNode \<Rightarrow> containerChildren @ [childNode] | None \<Rightarrow> containerChildren)
                 else containerChildren) = Inr r'"
              by simp
            from IH(7) [OF run x xa opn nocard nogrid nodiv this] show ?thesis by simp
          qed
        qed
      qed
    qed
  qed
qed


lemma nestedS_terminates: "All parseCardS_cardLoopS_parseContainerS_containerLoopS_dom"
  by (relation "measure (\<lambda>x. case x of
        Inl (Inl (stack, opts, lines, startIndex, title)) \<Rightarrow> max 1 (2 * (length lines - startIndex) - 1)
      | Inl (Inr (stack, opts, lines, i, depth, cs)) \<Rightarrow> 2 * (length lines - i)
      | Inr (Inl (stack, opts, lines, startIndex, type, config)) \<Rightarrow> max 1 (2 * (length lines - startIndex) - 1)
      | Inr (Inr (stack, opts, lines, i, depth, cs)) \<Rightarrow> 2 * (length lines - i))")
    (auto dest: boundsS_partial(1) boundsS_partial(3))

termination parseCardS
  by (rule nestedS_terminates)

declare parseCardS.simps [simp del] cardLoopS.simps [simp del]
  parseContainerS.simps [simp del] containerLoopS.simps [simp del]

text \<open>The loop of the table rows, the separator line and one round of the loop of \<^verbatim>\<open>parse\<close>.\<close>

function tableRowsS :: "ParserOptions \<Rightarrow> string list \<Rightarrow> nat \<Rightarrow> string list list \<Rightarrow> error + (string list list \<times> nat)" where
  "tableRowsS opts lines i rows =
     (if i < length lines then
        (case lineAtS opts lines i of
           Inl e \<Rightarrow> Inl e
         | Inr rowLine \<Rightarrow>
             if rowLine = [] \<or> \<not> includesChar rowLine CHR ''|'' then Inr (rows, i)
             else tableRowsS opts lines (i + 1) (rows @ [cells rowLine]))
      else Inr (rows, i))"
  by pat_completeness auto

lemma tableRowsS_terminates: "All tableRowsS_dom"
  by (relation "measure (\<lambda>(opts, lines, i, rows). length lines - i)") auto

termination tableRowsS
  by (rule tableRowsS_terminates)

declare tableRowsS.simps [simp del]

definition skipSeparatorS :: "ParserOptions \<Rightarrow> string list \<Rightarrow> nat \<Rightarrow> error + nat" where
  "skipSeparatorS opts lines i =
     (if i < length lines then
        (case lineAtS opts lines i of
           Inl e \<Rightarrow> Inl e
         | Inr separatorLine \<Rightarrow>
             Inr (if includesChar separatorLine CHR ''-'' \<and> includesChar separatorLine CHR ''|''
                  then i + 1 else i))
      else Inr i)"

definition parseStepS :: "nat \<Rightarrow> ParserOptions \<Rightarrow> string list \<Rightarrow> nat \<Rightarrow> MarkdownNode list \<Rightarrow> string list \<Rightarrow> error + (nat \<times> MarkdownNode list \<times> string list)" where
  "parseStepS stack opts lines i ns es =
     (case lineAtS opts lines i of
        Inl e \<Rightarrow> Inl e
      | Inr line \<Rightarrow>
      if line = [] then Inr (i + 1, ns, es)
      else if includesChar line CHR ''|'' \<and> startsWith (trim line) ''|'' then
        (let headers = cells line
         in case skipSeparatorS opts lines (i + 1) of
              Inl e \<Rightarrow> Inl e
            | Inr j \<Rightarrow>
                (case tableRowsS opts lines j [] of
                   Inl e \<Rightarrow> Inl e
                 | Inr rows \<Rightarrow> Inr (snd rows, ns @ [Table headers (fst rows)], es)))
      else
      (case match line cardRe of
         Some cardMatch \<Rightarrow>
           (case parseCardS stack opts lines i (orUndefined (gstr cardMatch 1)) of
              Inl e \<Rightarrow> Inl e
            | Inr result \<Rightarrow> Inr (snd result, ns @ [fst result], es))
       | None \<Rightarrow>
      (case match line gridRe of
         Some gridMatch \<Rightarrow>
           (case parseContainerS stack opts lines i grid_type (gstr gridMatch 1) of
              Inl e \<Rightarrow> Inl e
            | Inr result \<Rightarrow> Inr (snd result, ns @ [fst result], es))
       | None \<Rightarrow>
      (if match line divRe \<noteq> None \<and> \<not> includesChar line CHR '']'' then
         (let config = (case match line divRe of None \<Rightarrow> [] | Some divMatch \<Rightarrow> gstr divMatch 1)
          in case parseContainerS stack opts lines i div_type config of
               Inl e \<Rightarrow> Inl e
             | Inr result \<Rightarrow> Inr (snd result, ns @ [fst result], es))
       else
      (case parseLine line of
         Some node \<Rightarrow> Inr (i + 1, ns @ [node], es)
       | None \<Rightarrow>
           Inr (i + 1, ns,
                if strict opts then
                  es @ [''Line '' @ showNat (i + 1) @ '': Unable to parse '' @ [CHR 0x22] @ line @ [CHR 0x22]]
                else es))))))"

text \<open>
  For the proofs, the four functions written as two, for the opener \<open>k\<close> of the
  container: \<^verbatim>\<open>parseCard\<close> and \<^verbatim>\<open>parseContainer\<close> differ in the closer and in the node
  they build (\<open>closer\<close> and \<open>nodeOf\<close>), a nested opener is found by the three tests of
  \<open>openerOf\<close>, and the counter \<^verbatim>\<open>depth\<close> is 1 as long as a loop runs. They are shown to
  be the four functions above.
\<close>

function parseOpenerS :: "nat \<Rightarrow> ParserOptions \<Rightarrow> string list \<Rightarrow> nat \<Rightarrow> Opener \<Rightarrow> error + (MarkdownNode \<times> nat)"
  and loopS :: "nat \<Rightarrow> Opener \<Rightarrow> ParserOptions \<Rightarrow> string list \<Rightarrow> nat \<Rightarrow> MarkdownNode list \<Rightarrow> error + (MarkdownNode list \<times> nat)"
where
  "parseOpenerS stack opts lines startIndex k =
     (case stack of
        0 \<Rightarrow> Inl RangeError
      | Suc room \<Rightarrow>
          (case loopS room k opts lines (startIndex + 1) [] of
             Inl e \<Rightarrow> Inl e
           | Inr done \<Rightarrow> Inr (nodeOf k (fst done), snd done + 1)))"
| "loopS stack k opts lines i children =
     (if i < length lines then
        (case lineAtS opts lines i of
           Inl e \<Rightarrow> Inl e
         | Inr line \<Rightarrow>
             if line = closer k then Inr (children, i)
             else
               (case openerOf line of
                  Some k' \<Rightarrow>
                    (case parseOpenerS stack opts lines i k' of
                       Inl e \<Rightarrow> Inl e
                     | Inr result \<Rightarrow> loopS stack k opts lines (snd result) (children @ [fst result]))
                | None \<Rightarrow>
                    loopS stack k opts lines (i + 1)
                      (if line \<noteq> [] then
                         (case parseLine line of
                            Some childNode \<Rightarrow> children @ [childNode]
                          | None \<Rightarrow> children)
                       else children)))
      else Inr (children, i))"
  by pat_completeness auto

lemma boundsG_partial:
  "parseOpenerS_loopS_dom (Inl (stack, opts, lines, startIndex, k))
     \<Longrightarrow> parseOpenerS stack opts lines startIndex k = Inr r \<Longrightarrow> startIndex < snd r"
  "parseOpenerS_loopS_dom (Inr (stack, k, opts, lines, i, cs))
     \<Longrightarrow> loopS stack k opts lines i cs = Inr r' \<Longrightarrow> i \<le> snd r'"
proof (induct arbitrary: r and r' rule: parseOpenerS_loopS.pinduct)
  case (1 stack opts lines startIndex k)
  note dom = 1(1) and IH = 1(2) and res = 1(3)
  from res obtain room d where d: "stack = Suc room"
    "loopS room k opts lines (startIndex + 1) [] = Inr d" "r = (nodeOf k (fst d), snd d + 1)"
    by (auto simp: parseOpenerS.psimps [OF dom] split: nat.splits sum.splits)
  from IH [OF d(1,2)] d(3) show ?case by simp
next
  case (2 stack k opts lines i children)
  note dom = 2(1) and IH = 2(2-4) and res = 2(5)
  show ?case
  proof (cases "i < length lines")
    case False
    with res show ?thesis by (auto simp: loopS.psimps [OF dom])
  next
    case run: True
    then obtain line where line: "lineAtS opts lines i = Inr line"
      by (simp add: lineAtS_def)
    show ?thesis
    proof (cases "line = closer k")
      case True
      with res run line show ?thesis by (auto simp: loopS.psimps [OF dom])
    next
      case notc: False
      show ?thesis
      proof (cases "openerOf line")
        case None
        with res run line notc IH(1) [OF run line notc None] show ?thesis
          by (auto simp: loopS.psimps [OF dom])
      next
        case (Some k')
        show ?thesis
        proof (cases "parseOpenerS stack opts lines i k'")
          case (Inl e)
          with res run line notc Some show ?thesis by (auto simp: loopS.psimps [OF dom])
        next
          case (Inr result)
          from IH(2) [OF run line notc Some Inr] have "i < snd result" .
          moreover from res run line notc Some Inr
          have "loopS stack k opts lines (snd result) (children @ [fst result]) = Inr r'"
            by (auto simp: loopS.psimps [OF dom])
          from IH(3) [OF run line notc Some Inr this] have "snd result \<le> snd r'" .
          ultimately show ?thesis by simp
        qed
      qed
    qed
  qed
qed


lemma nestedG_terminates: "All parseOpenerS_loopS_dom"
proof (relation "measure (\<lambda>x. case x of
    Inl (stack, opts, lines, startIndex, k) \<Rightarrow> max 1 (2 * (length lines - startIndex) - 1)
  | Inr (stack, k, opts, lines, i, cs) \<Rightarrow> 2 * (length lines - i))", goal_cases)
  case 1
  show ?case by simp
next
  case 2 then show ?case by auto
next
  case 3 then show ?case by auto
next
  case 4 then show ?case by auto
next
  case (5 stack k opts lines i children line k' result)
  with boundsG_partial(1) [of stack opts lines i k' result] show ?case by auto
qed

termination parseOpenerS
  by (rule nestedG_terminates)

declare parseOpenerS.simps [simp del] loopS.simps [simp del]

text \<open>
  The call that a loop makes for the opener \<open>k\<close>, and the loop of the container that
  \<open>k\<close> opens, of the four functions; they are the two functions just defined.
\<close>

definition dispatchS :: "nat \<Rightarrow> ParserOptions \<Rightarrow> string list \<Rightarrow> nat \<Rightarrow> Opener \<Rightarrow> error + (MarkdownNode \<times> nat)" where
  "dispatchS stack opts lines i k =
     (case k of
        CardOpener title \<Rightarrow> parseCardS stack opts lines i title
      | BoxOpener type config \<Rightarrow> parseContainerS stack opts lines i type config)"

definition loopOfS :: "nat \<Rightarrow> Opener \<Rightarrow> ParserOptions \<Rightarrow> string list \<Rightarrow> nat \<Rightarrow> MarkdownNode list \<Rightarrow> error + (MarkdownNode list \<times> nat)" where
  "loopOfS stack k opts lines i cs =
     (case k of
        CardOpener title \<Rightarrow> cardLoopS stack opts lines i 1 cs
      | BoxOpener type config \<Rightarrow> containerLoopS stack opts lines i 1 cs)"

lemma dispatchS_unfold:
  "dispatchS stack opts lines i k =
     (case stack of
        0 \<Rightarrow> Inl RangeError
      | Suc room \<Rightarrow>
          (case loopOfS room k opts lines (i + 1) [] of
             Inl e \<Rightarrow> Inl e
           | Inr done \<Rightarrow> Inr (nodeOf k (fst done), snd done + 1)))"
proof (cases k)
  case (CardOpener title)
  show ?thesis
    unfolding CardOpener dispatchS_def loopOfS_def Opener.case
    by (subst parseCardS.simps) (simp split: nat.splits sum.splits)
next
  case (BoxOpener type config)
  show ?thesis
    unfolding BoxOpener dispatchS_def loopOfS_def Opener.case
    by (subst parseContainerS.simps) (cases type; simp split: nat.splits sum.splits)
qed

lemma loopOfS_unfold:
  "loopOfS stack k opts lines i cs =
     (if i < length lines then
        (case lineAtS opts lines i of
           Inl e \<Rightarrow> Inl e
         | Inr line \<Rightarrow>
             if line = closer k then Inr (cs, i)
             else
               (case openerOf line of
                  Some k' \<Rightarrow>
                    (case dispatchS stack opts lines i k' of
                       Inl e \<Rightarrow> Inl e
                     | Inr result \<Rightarrow> loopOfS stack k opts lines (snd result) (cs @ [fst result]))
                | None \<Rightarrow>
                    loopOfS stack k opts lines (i + 1)
                      (if line \<noteq> [] then
                         (case parseLine line of
                            Some childNode \<Rightarrow> cs @ [childNode]
                          | None \<Rightarrow> cs)
                       else cs)))
      else Inr (cs, i))"
proof (cases k)
  case (CardOpener title)
  show ?thesis
    unfolding CardOpener loopOfS_def Opener.case closer.simps
    by (subst cardLoopS.simps)
      (auto simp: Let_def openerOf_def dispatchS_def lineAtS_def split: option.splits sum.splits)
next
  case (BoxOpener type config)
  show ?thesis
    unfolding BoxOpener loopOfS_def Opener.case closer.simps
    by (subst containerLoopS.simps)
      (auto simp: Let_def openerOf_def dispatchS_def lineAtS_def split: option.splits sum.splits)
qed

lemma same_as_generic:
  "dispatchS stack opts lines startIndex k = parseOpenerS stack opts lines startIndex k"
  "loopOfS stack k opts lines i cs = loopS stack k opts lines i cs"
proof (induct stack opts lines startIndex k and stack k opts lines i cs
    rule: parseOpenerS_loopS.induct)
  case (1 stack opts lines startIndex k)
  show ?case
  proof (cases stack)
    case 0
    then show ?thesis by (subst dispatchS_unfold, subst parseOpenerS.simps) simp
  next
    case (Suc room)
    from 1 [OF Suc] show ?thesis
      by (subst dispatchS_unfold, subst parseOpenerS.simps) (simp add: Suc)
  qed
next
  case (2 stack k opts lines i children)
  note IH = 2
  show ?case
  proof (cases "i < length lines")
    case False
    then show ?thesis by (subst loopOfS_unfold, subst loopS.simps) simp
  next
    case run: True
    define line where "line = lineAt opts lines i"
    have line: "lineAtS opts lines i = Inr line" using run by (simp add: lineAtS_def line_def)
    show ?thesis
    proof (cases "line = closer k")
      case True
      then show ?thesis using run line by (subst loopOfS_unfold, subst loopS.simps) simp
    next
      case notc: False
      show ?thesis
      proof (cases "openerOf line")
        case None
        with IH(1) [OF run line notc None] run line notc show ?thesis
          by (subst loopOfS_unfold, subst loopS.simps) simp
      next
        case (Some k')
        note call = IH(2) [OF run line notc Some]
        show ?thesis
        proof (cases "parseOpenerS stack opts lines i k'")
          case (Inl e)
          with call run line notc Some show ?thesis
            by (subst loopOfS_unfold, subst loopS.simps) simp
        next
          case (Inr result)
          with IH(3) [OF run line notc Some Inr] call run line notc Some show ?thesis
            by (subst loopOfS_unfold, subst loopS.simps) simp
        qed
      qed
    qed
  qed
qed

text \<open>One round of the loop of \<^verbatim>\<open>parse\<close> with the three tests of an opener as one.\<close>

lemma parseStepS_unfold:
  "parseStepS stack opts lines i ns es =
     (case lineAtS opts lines i of
        Inl e \<Rightarrow> Inl e
      | Inr line \<Rightarrow>
          if line = [] then Inr (i + 1, ns, es)
          else if includesChar line CHR ''|'' \<and> startsWith (trim line) ''|'' then
            (case skipSeparatorS opts lines (i + 1) of
               Inl e \<Rightarrow> Inl e
             | Inr j \<Rightarrow>
                 (case tableRowsS opts lines j [] of
                    Inl e \<Rightarrow> Inl e
                  | Inr rows \<Rightarrow> Inr (snd rows, ns @ [Table (cells line) (fst rows)], es)))
          else
            (case openerOf line of
               Some k \<Rightarrow>
                 (case parseOpenerS stack opts lines i k of
                    Inl e \<Rightarrow> Inl e
                  | Inr result \<Rightarrow> Inr (snd result, ns @ [fst result], es))
             | None \<Rightarrow>
                 (case parseLine line of
                    Some node \<Rightarrow> Inr (i + 1, ns @ [node], es)
                  | None \<Rightarrow>
                      Inr (i + 1, ns,
                           if strict opts then
                             es @ [''Line '' @ showNat (i + 1) @ '': Unable to parse '' @ [CHR 0x22] @ line @ [CHR 0x22]]
                           else es))))"
  by (auto simp: parseStepS_def Let_def openerOf_def same_as_generic(1) [symmetric] dispatchS_def
      split: sum.splits option.splits)

text \<open>
  With the stack and the reads made explicit the functions return what the functions
  without them return, or they end in a \<^verbatim>\<open>RangeError\<close>: no read of a line fails.
\<close>

lemma refine_containers:
  "(parseOpenerS stack opts lines startIndex k = Inr (parseOpener opts lines startIndex k)
      \<or> parseOpenerS stack opts lines startIndex k = Inl RangeError)"
  "(loopS stack k opts lines i cs = Inr (loopOf k opts lines i cs)
      \<or> loopS stack k opts lines i cs = Inl RangeError)"
proof (induct stack opts lines startIndex k and stack k opts lines i cs
    rule: parseOpenerS_loopS.induct)
  case (1 stack opts lines startIndex k)
  show ?case
  proof (cases stack)
    case 0
    then show ?thesis by (subst (1 2) parseOpenerS.simps) simp
  next
    case (Suc room)
    from 1 [OF Suc] show ?thesis
      by (subst (1 2) parseOpenerS.simps) (auto simp: Suc parseOpener_loopOf)
  qed
next
  case (2 stack k opts lines i children)
  note IH = 2
  show ?case
  proof (cases "i < length lines")
    case False
    then show ?thesis by (subst (1 2) loopS.simps) (simp add: loopOf_end)
  next
    case run: True
    define line where "line = lineAt opts lines i"
    have line: "lineAtS opts lines i = Inr line" using run by (simp add: lineAtS_def line_def)
    note step = loopOf_step [OF run, of k opts children, folded line_def]
    show ?thesis
    proof (cases "line = closer k")
      case True
      then show ?thesis using run line by (subst (1 2) loopS.simps) (simp add: step)
    next
      case notc: False
      show ?thesis
      proof (cases "openerOf line")
        case None
        with IH(1) [OF run line notc None] run line notc show ?thesis
          by (subst (1 2) loopS.simps) (simp add: step)
      next
        case (Some k')
        from IH(2) [OF run line notc Some] show ?thesis
        proof
          assume e: "parseOpenerS stack opts lines i k' = Inl RangeError"
          then show ?thesis using run line notc Some by (subst (1 2) loopS.simps) simp
        next
          assume r: "parseOpenerS stack opts lines i k' = Inr (parseOpener opts lines i k')"
          from IH(3) [OF run line notc Some r] run line notc Some r show ?thesis
            by (subst (1 2) loopS.simps) (simp add: step)
        qed
      qed
    qed
  qed
qed


text \<open>
  The number of lines that open a container. No more calls of \<^verbatim>\<open>parseCard\<close> and
  \<^verbatim>\<open>parseContainer\<close> are ever nested than the lines still to read hold openers, so a stack
  with room for that many is enough.
\<close>

definition openers :: "ParserOptions \<Rightarrow> string list \<Rightarrow> nat" where
  "openers opts ls = length (filter (\<lambda>l. openerOf (lineOf opts l) \<noteq> None) ls)"

lemma openers_drop:
  "i < length lines \<Longrightarrow>
     openers opts (drop i lines)
       = (if openerOf (lineAt opts lines i) \<noteq> None then 1 else 0) + openers opts (drop (Suc i) lines)"
  by (simp add: openers_def lineAt_lineOf Cons_nth_drop_Suc [symmetric])

lemma openers_mono: "i \<le> j \<Longrightarrow> openers opts (drop j lines) \<le> openers opts (drop i lines)"
proof -
  assume "i \<le> j"
  then obtain d where d: "j = i + d" using le_Suc_ex by blast
  have "length (filter P (drop n xs)) \<le> length (filter P xs)" for P n and xs :: "string list"
  proof -
    have "length (filter P xs) = length (filter P (take n xs)) + length (filter P (drop n xs))"
      by (metis append_take_drop_id filter_append length_append)
    then show ?thesis by simp
  qed
  from this [of _ d "drop i lines"] show ?thesis
    by (simp add: openers_def d add.commute)
qed

lemma enough_stack:
  "openers opts (drop (Suc startIndex) lines) < stack
     \<Longrightarrow> parseOpenerS stack opts lines startIndex k = Inr (parseOpener opts lines startIndex k)"
  "openers opts (drop i lines) \<le> stack
     \<Longrightarrow> loopS stack k opts lines i cs = Inr (loopOf k opts lines i cs)"
proof (induct stack opts lines startIndex k and stack k opts lines i cs
    rule: parseOpenerS_loopS.induct)
  case (1 stack opts lines startIndex k)
  from 1(2) obtain room where room: "stack = Suc room" by (cases stack) auto
  with 1(2) have "openers opts (drop (startIndex + 1) lines) \<le> room" by simp
  from 1(1) [OF room this] show ?case
    by (subst parseOpenerS.simps) (simp add: room parseOpener_loopOf)
next
  case (2 stack k opts lines i children)
  note IH = 2(1-3) and enough = 2(4)
  show ?case
  proof (cases "i < length lines")
    case False
    then show ?thesis by (subst loopS.simps) (simp add: loopOf_end)
  next
    case run: True
    define line where "line = lineAt opts lines i"
    have line: "lineAtS opts lines i = Inr line" using run by (simp add: lineAtS_def line_def)
    note step = loopOf_step [OF run, of k opts children, folded line_def]
    note count = openers_drop [OF run, of opts, folded line_def]
    show ?thesis
    proof (cases "line = closer k")
      case True
      then show ?thesis using run line by (subst loopS.simps) (simp add: step)
    next
      case notc: False
      show ?thesis
      proof (cases "openerOf line")
        case None
        from enough count have "openers opts (drop (i + 1) lines) \<le> stack" by simp
        from IH(1) [OF run line notc None this] run line notc None show ?thesis
          by (subst loopS.simps) (simp add: step)
      next
        case (Some k')
        from enough count Some have "openers opts (drop (Suc i) lines) < stack" by simp
        from IH(2) [OF run line notc Some this]
        have r: "parseOpenerS stack opts lines i k' = Inr (parseOpener opts lines i k')" .
        have "i \<le> snd (parseOpener opts lines i k')"
          by (simp add: parseOpener_loopOf) (meson loopOf_next le_SucI Suc_leD le_trans)
        from openers_mono [OF this, of opts lines] enough
        have "openers opts (drop (snd (parseOpener opts lines i k')) lines) \<le> stack" by simp
        from IH(3) [OF run line notc Some r this] run line notc Some r show ?thesis
          by (subst loopS.simps) (simp add: step)
      qed
    qed
  qed
qed

lemma tableRowsS_refines: "tableRowsS opts lines i rows = Inr (tableRows opts lines i rows)"
proof (induction opts lines i rows rule: tableRows.induct)
  case (1 opts lines i rows)
  show ?case
  proof (cases "i < length lines")
    case False
    then show ?thesis by (subst tableRowsS.simps, subst tableRows.simps) simp
  next
    case True
    then show ?thesis
      using 1 [OF True refl]
      by (subst tableRowsS.simps, subst tableRows.simps) (simp add: lineAtS_def Let_def)
  qed
qed

lemma skipSeparatorS_refines: "skipSeparatorS opts lines i = Inr (skipSeparator opts lines i)"
  by (simp add: skipSeparatorS_def skipSeparator_def lineAtS_def Let_def)

lemma parseStep_plain:
  assumes "openerOf (lineAt opts lines i) = None" "lineAt opts lines i \<noteq> []"
    "\<not> (includesChar (lineAt opts lines i) CHR ''|'' \<and> startsWith (trim (lineAt opts lines i)) ''|'')"
  shows "parseStep opts lines i ns es =
    (case parseLine (lineAt opts lines i) of
       Some node \<Rightarrow> (i + 1, ns @ [node], es)
     | None \<Rightarrow>
         (i + 1, ns,
          if strict opts then
            es @ [''Line '' @ showNat (i + 1) @ '': Unable to parse '' @ [CHR 0x22] @ lineAt opts lines i @ [CHR 0x22]]
          else es))"
  using assms
  by (auto simp: parseStep_def Let_def openerOf_def split: option.splits if_splits)

lemma parseStepS_refines:
  assumes "i < length lines"
  shows "parseStepS stack opts lines i ns es = Inr (parseStep opts lines i ns es)
       \<or> parseStepS stack opts lines i ns es = Inl RangeError"
    and "openers opts (drop i lines) \<le> stack
       \<Longrightarrow> parseStepS stack opts lines i ns es = Inr (parseStep opts lines i ns es)"
proof -
  define line where "line = lineAt opts lines i"
  have line: "lineAtS opts lines i = Inr line" using assms by (simp add: lineAtS_def line_def)
  note count = openers_drop [OF assms, of opts, folded line_def]
  have A: "(parseStepS stack opts lines i ns es = Inr (parseStep opts lines i ns es)
       \<or> parseStepS stack opts lines i ns es = Inl RangeError)
     \<and> (openers opts (drop i lines) \<le> stack
       \<longrightarrow> parseStepS stack opts lines i ns es = Inr (parseStep opts lines i ns es))"
  proof (cases "line = []")
    case True
    then show ?thesis
      using line by (simp add: parseStepS_unfold parseStep_def Let_def line_def)
  next
    case ne: False
    show ?thesis
    proof (cases "includesChar line CHR ''|'' \<and> startsWith (trim line) ''|''")
      case True
      then show ?thesis
        using line ne
        by (simp add: parseStepS_unfold parseStep_def Let_def line_def [symmetric]
            skipSeparatorS_refines tableRowsS_refines)
    next
      case nt: False
      have unf: "parseStepS stack opts lines i ns es =
          (case openerOf line of
             Some k \<Rightarrow>
               (case parseOpenerS stack opts lines i k of
                  Inl e \<Rightarrow> Inl e
                | Inr result \<Rightarrow> Inr (snd result, ns @ [fst result], es))
           | None \<Rightarrow>
               (case parseLine line of
                  Some node \<Rightarrow> Inr (i + 1, ns @ [node], es)
                | None \<Rightarrow>
                    Inr (i + 1, ns,
                         if strict opts then
                           es @ [''Line '' @ showNat (i + 1) @ '': Unable to parse '' @ [CHR 0x22] @ line @ [CHR 0x22]]
                         else es)))"
        by (simp only: parseStepS_unfold line sum.case if_not_P [OF ne] if_not_P [OF nt])
      show ?thesis
      proof (cases "openerOf line")
        case None
        note pp = parseStep_plain [of opts lines i ns es, folded line_def, OF None ne nt]
        show ?thesis
          by (simp add: unf None pp split: option.splits)
      next
        case (Some k)
        note ps = parseStep_opener [of opts lines i k ns es, folded line_def, OF Some]
        from refine_containers(1) [of stack opts lines i k]
        have 1: "parseStepS stack opts lines i ns es = Inr (parseStep opts lines i ns es)
            \<or> parseStepS stack opts lines i ns es = Inl RangeError"
          by (auto simp: unf Some ps)
        have 2: "parseStepS stack opts lines i ns es = Inr (parseStep opts lines i ns es)"
          if "openers opts (drop i lines) \<le> stack"
        proof -
          from that count Some have "openers opts (drop (Suc i) lines) < stack" by simp
          from enough_stack(1) [OF this, of k] show ?thesis
            by (simp add: unf Some ps)
        qed
        from 1 2 show ?thesis by blast
      qed
    qed
  qed
  from A show "parseStepS stack opts lines i ns es = Inr (parseStep opts lines i ns es)
       \<or> parseStepS stack opts lines i ns es = Inl RangeError" by blast
  from A show "openers opts (drop i lines) \<le> stack
       \<Longrightarrow> parseStepS stack opts lines i ns es = Inr (parseStep opts lines i ns es)" by blast
qed

text \<open>The loop of \<^verbatim>\<open>parse\<close> and \<^verbatim>\<open>parse\<close> itself.\<close>

function parseLoopS :: "nat \<Rightarrow> ParserOptions \<Rightarrow> string list \<Rightarrow> nat \<Rightarrow> MarkdownNode list \<Rightarrow> string list \<Rightarrow> error + (MarkdownNode list \<times> string list)" where
  "parseLoopS stack opts lines i ns es =
     (if i < length lines then
        (case parseStepS stack opts lines i ns es of
           Inl e \<Rightarrow> Inl e
         | Inr nxt \<Rightarrow> parseLoopS stack opts lines (fst nxt) (fst (snd nxt)) (snd (snd nxt)))
      else Inr (ns, es))"
  by pat_completeness auto

lemma parseLoopS_terminates: "All parseLoopS_dom"
proof (relation "measure (\<lambda>(stack, opts, lines, i, ns, es). length lines - i)")
  show "wf (measure (\<lambda>(stack, opts, lines, i, ns, es). length lines - i))"
    by simp
next
  fix stack opts lines i and ns :: "MarkdownNode list" and es :: "string list" and nxt
  assume run: "i < length lines" and nxt: "parseStepS stack opts lines i ns es = Inr nxt"
  from parseStepS_refines(1) [OF run, of stack opts ns es] nxt
  have "nxt = parseStep opts lines i ns es" by auto
  with parseStep_next [of i opts lines ns es] have "i < fst nxt" by simp
  with run show "((stack, opts, lines, fst nxt, fst (snd nxt), snd (snd nxt)), (stack, opts, lines, i, ns, es))
      \<in> measure (\<lambda>(stack, opts, lines, i, ns, es). length lines - i)"
    by (cases nxt) (auto intro!: diff_less_mono2)
qed

termination parseLoopS
  by (rule parseLoopS_terminates)

declare parseLoopS.simps [simp del]

definition parseS :: "nat \<Rightarrow> ParserOptions \<Rightarrow> string \<Rightarrow> error + ParseResult" where
  "parseS stack opts markdown =
     (let lines = split CHR 0x0A markdown
      in case parseLoopS stack opts lines 0 [] [] of
           Inl e \<Rightarrow> Inl e
         | Inr done \<Rightarrow>
             Inr \<lparr>nodes = fst done,
                  errors = (if length (snd done) > 0 then Some (snd done) else None)\<rparr>)"

lemma parseLoopS_refines:
  "(parseLoopS stack opts lines i ns es = Inr (parseLoop opts lines i ns es)
      \<or> parseLoopS stack opts lines i ns es = Inl RangeError)
   \<and> (openers opts (drop i lines) \<le> stack
      \<longrightarrow> parseLoopS stack opts lines i ns es = Inr (parseLoop opts lines i ns es))"
proof (induction opts lines i ns es rule: parseLoop.induct)
  case (1 opts lines i ns es)
  show ?case
  proof (cases "i < length lines")
    case False
    then have "parseLoopS stack opts lines i ns es = Inr (ns, es)"
      by (subst parseLoopS.simps) simp
    moreover from False have "parseLoop opts lines i ns es = (ns, es)"
      by (subst parseLoop.simps) simp
    ultimately show ?thesis by simp
  next
    case run: True
    define nxt where "nxt = parseStep opts lines i ns es"
    note IH = 1 [OF run nxt_def]
    have unf: "parseLoop opts lines i ns es = parseLoop opts lines (fst nxt) (fst (snd nxt)) (snd (snd nxt))"
      using run by (subst parseLoop.simps) (simp add: Let_def nxt_def)
    have mono: "openers opts (drop (fst nxt) lines) \<le> openers opts (drop i lines)"
      using parseStep_next [of i opts lines ns es] by (intro openers_mono) (simp add: nxt_def)
    from parseStepS_refines(1) [OF run, of stack opts ns es]
    have 1: "parseLoopS stack opts lines i ns es = Inr (parseLoop opts lines i ns es)
        \<or> parseLoopS stack opts lines i ns es = Inl RangeError"
    proof
      assume "parseStepS stack opts lines i ns es = Inl RangeError"
      then show ?thesis using run by (subst (1 2) parseLoopS.simps) simp
    next
      assume "parseStepS stack opts lines i ns es = Inr (parseStep opts lines i ns es)"
      then have "parseLoopS stack opts lines i ns es
          = parseLoopS stack opts lines (fst nxt) (fst (snd nxt)) (snd (snd nxt))"
        using run by (subst parseLoopS.simps) (simp add: nxt_def)
      with IH show ?thesis by (simp only: unf; blast)
    qed
    have 2: "parseLoopS stack opts lines i ns es = Inr (parseLoop opts lines i ns es)"
      if enough: "openers opts (drop i lines) \<le> stack"
    proof -
      from parseStepS_refines(2) [OF run enough, of ns es]
      have "parseLoopS stack opts lines i ns es
          = parseLoopS stack opts lines (fst nxt) (fst (snd nxt)) (snd (snd nxt))"
        using run by (subst parseLoopS.simps) (simp add: nxt_def)
      moreover from mono enough have "openers opts (drop (fst nxt) lines) \<le> stack" by simp
      ultimately show ?thesis using IH by (simp only: unf; blast)
    qed
    from 1 2 show ?thesis by blast
  qed
qed

lemma parseS_refines:
  "parseS stack opts markdown = Inr (parse opts markdown) \<or> parseS stack opts markdown = Inl RangeError"
  "openers opts (split CHR 0x0A markdown) \<le> stack \<Longrightarrow> parseS stack opts markdown = Inr (parse opts markdown)"
  using parseLoopS_refines [of stack opts "split CHR 0x0A markdown" 0 "[]" "[]"]
  by (auto simp: parseS_def parse_def Let_def)


text \<open>
  Whatever room the stack has, an input with one more nested opener than that overflows
  it: lines \<^verbatim>\<open>[\<close>, each one a div opener inside the one before.
\<close>

lemma split_no_sep: "c \<notin> set l \<Longrightarrow> split c l = [l]"
  by (induction l) auto

lemma split_line: "c \<notin> set l \<Longrightarrow> split c (l @ c # rest) = l # split c rest"
  by (induction l) auto

lemma split_joinLines:
  assumes "ls \<noteq> []" "\<forall>l \<in> set ls. CHR 0x0A \<notin> set l"
  shows "split CHR 0x0A (joinLines ls) = ls"
  using assms
proof (induction ls rule: joinLines.induct)
  case 1
  then show ?case by simp
next
  case (2 l)
  then show ?case by (simp add: split_no_sep)
next
  case (3 l v va)
  then show ?case by (simp add: split_line)
qed

lemma bracket_line:
  "lineOf opts ''['' = ''[''" "openerOf ''['' = Some (BoxOpener div_type [])"
  "''['' \<noteq> closer k" "\<not> includesChar ''['' CHR ''|''"
proof -
  have "trim ''['' = ''[''" by code_simp
  then show "lineOf opts ''['' = ''[''" by (simp add: lineOf_def)
  show "openerOf ''['' = Some (BoxOpener div_type [])" by code_simp
  show "''['' \<noteq> closer k" by (cases k) simp_all
  show "\<not> includesChar ''['' CHR ''|''" by (simp add: includesChar_def)
qed

lemma deep_nesting:
  "stack + i < n \<Longrightarrow> parseOpenerS stack opts (replicate n ''['') i k = Inl RangeError"
proof (induction stack arbitrary: i k)
  case 0
  show ?case by (subst parseOpenerS.simps) simp
next
  case (Suc stack)
  let ?lines = "replicate n ''[''"
  from Suc.prems have run: "i + 1 < length ?lines" by simp
  then have line: "lineAtS opts ?lines (i + 1) = Inr ''[''"
    by (simp add: lineAtS_def lineAt_lineOf bracket_line)
  from Suc.prems have "stack + (i + 1) < n" by simp
  from Suc.IH [OF this]
  have "parseOpenerS stack opts ?lines (i + 1) (BoxOpener div_type []) = Inl RangeError" .
  then have "loopS stack k opts ?lines (i + 1) [] = Inl RangeError"
    using run line by (subst loopS.simps) (simp add: bracket_line)
  then show ?case by (subst parseOpenerS.simps) simp
qed

lemma deep_nesting_overflows:
  "parseS stack opts (joinLines (replicate (Suc stack) ''['')) = Inl RangeError"
proof -
  let ?lines = "replicate (Suc stack) ''[''"
  have lines: "split CHR 0x0A (joinLines ?lines) = ?lines"
    by (rule split_joinLines) simp_all
  have line: "lineAtS opts ?lines 0 = Inr ''[''"
    by (simp add: lineAtS_def lineAt_lineOf bracket_line)
  have "parseOpenerS stack opts ?lines 0 (BoxOpener div_type []) = Inl RangeError"
    by (rule deep_nesting) simp
  then have "parseStepS stack opts ?lines 0 [] [] = Inl RangeError"
    by (simp add: parseStepS_unfold line bracket_line del: replicate.simps)
  then have "parseLoopS stack opts ?lines 0 [] [] = Inl RangeError"
    by (subst parseLoopS.simps) simp
  then show ?thesis by (simp only: parseS_def Let_def lines sum.case)
qed


section \<open>The claims\<close>

text \<open>
  C1, as amended. The claim: for every input \<open>parse\<close> terminates and returns a node list
  without throwing. Every loop of the parser terminates: the domain predicate of each
  recursive function, the set of arguments from which its recursion is well founded, holds
  of every argument, for the functions with the call stack and the reads made explicit as
  for those without; one round of the tokenizer's loop moves \<open>position\<close> forward by at
  least one character and one round of the loop of \<open>parse\<close> moves its index forward. No
  read fails: \<open>parseS\<close> never ends in a \<^verbatim>\<open>TypeError\<close>, and every group that the parser
  reads takes part in every match of its pattern. But \<open>parse\<close> is not total over all
  inputs. \<open>parseS stack\<close> returns what \<open>parse\<close> returns when the stack has room for as many
  nested calls as the input has lines that open a container; and whatever the room, an
  input of that many lines \<^verbatim>\<open>[\<close> and one more ends in a \<^verbatim>\<open>RangeError\<close>.
\<close>

theorem parse_total_within_stack:
  "inlineLoop_dom (remaining, position, acc)
   \<and> position < fst (inlineStep remaining position acc)
   \<and> matchAllFrom_dom (r, n, s)
   \<and> parseCard_cardLoop_parseContainer_containerLoop_dom x
   \<and> parseCardS_cardLoopS_parseContainerS_containerLoopS_dom y
   \<and> tableRows_dom (opts, lines, i, rows)
   \<and> tableRowsS_dom (opts, lines, i, rows)
   \<and> parseLoop_dom (opts, lines, i, ns, es)
   \<and> parseLoopS_dom (stack, opts, lines, i, ns, es)
   \<and> i < fst (parseStep opts lines i ns es)
   \<and> (parseS stack opts markdown = Inr (parse opts markdown)
        \<or> parseS stack opts markdown = Inl RangeError)
   \<and> (openers opts (split CHR 0x0A markdown) \<le> stack
        \<longrightarrow> parseS stack opts markdown = Inr (parse opts markdown))
   \<and> parseS stack opts (joinLines (replicate (Suc stack) ''['')) = Inl RangeError
   \<and> (parseCardS stack opts lines i title = Inr (parseCard opts lines i title)
        \<or> parseCardS stack opts lines i title = Inl RangeError)
   \<and> (parseContainerS stack opts lines i type config
          = Inr (parseContainer opts lines i type config)
        \<or> parseContainerS stack opts lines i type config = Inl RangeError)
   \<and> ((p, g) \<in> set groupReads \<and> (match s p = Some mt \<or> mt \<in> set (matchAll s p))
        \<longrightarrow> group mt g \<noteq> None)"
proof -
  have c1: "parseCardS stack opts lines i title = Inr (parseCard opts lines i title)
        \<or> parseCardS stack opts lines i title = Inl RangeError"
    using refine_containers(1) [of stack opts lines i "CardOpener title"]
      same_as_generic(1) [of stack opts lines i "CardOpener title"]
    by (simp add: parseOpener_def dispatchS_def)
  have c2: "parseContainerS stack opts lines i type config
          = Inr (parseContainer opts lines i type config)
        \<or> parseContainerS stack opts lines i type config = Inl RangeError"
    using refine_containers(1) [of stack opts lines i "BoxOpener type config"]
      same_as_generic(1) [of stack opts lines i "BoxOpener type config"]
    by (simp add: parseOpener_def dispatchS_def)
  have c3: "(p, g) \<in> set groupReads \<and> (match s p = Some mt \<or> mt \<in> set (matchAll s p))
        \<longrightarrow> group mt g \<noteq> None"
    using match_sure [of s p mt g] matchAll_sure [of mt s p g] groupReads_sure [of p g]
    by blast
  show ?thesis
    using inlineLoop_terminates matchAllFrom_terminates nested_terminates nestedS_terminates
      tableRows_terminates tableRowsS_terminates parseLoop_terminates parseLoopS_terminates
      parseS_refines [where stack = stack and opts = opts and markdown = markdown]
      deep_nesting_overflows [where stack = stack and opts = opts] c1 c2 c3
    by (simp add: inlineStep_progress parseStep_next)
qed

theorem parse_total_within_stack_witness:
  "openers defaultOptions (split CHR 0x0A (joinLines [''[-- a'', ''['', ''x''])) \<le> 2
   \<and> parseS 2 defaultOptions (joinLines [''[-- a'', ''['', ''x''])
       = Inr \<lparr>nodes = [Card (Some [TextContent ''a'']) [Div None [Text [TextContent ''x'']]]],
               errors = None\<rparr>
   \<and> parseS 1 defaultOptions (joinLines [''[-- a'', ''['', ''x'']) = Inl RangeError
   \<and> (headerRe, 2) \<in> set groupReads
   \<and> match ''## Title'' headerRe
       = Some \<lparr>index = 0, whole = ''## Title'', groups = [(2, ''Title''), (1, ''##'')]\<rparr>
   \<and> group \<lparr>index = 0, whole = ''## Title'', groups = [(2, ''Title''), (1, ''##'')]\<rparr> 2 \<noteq> None
   \<and> 2 < fst (inlineStep ''a _b'' 2 [TextContent ''a ''])"
proof -
  let ?mt = "\<lparr>index = 0, whole = ''## Title'', groups = [(2, ''Title''), (1, ''##'')]\<rparr>"
  have h: "openers defaultOptions (split CHR 0x0A (joinLines [''[-- a'', ''['', ''x''])) \<le> 2"
    by code_simp
  have p: "parse defaultOptions (joinLines [''[-- a'', ''['', ''x''])
      = \<lparr>nodes = [Card (Some [TextContent ''a'']) [Div None [Text [TextContent ''x'']]]],
         errors = None\<rparr>"
    by code_simp
  have o: "parseS 1 defaultOptions (joinLines [''[-- a'', ''['', ''x'']) = Inl RangeError"
    by code_simp
  have mt: "match ''## Title'' headerRe = Some ?mt"
    by code_simp
  have g: "(headerRe, 2) \<in> set groupReads" by (simp add: groupReads_def)
  note inst = parse_total_within_stack [where remaining = "''a _b''" and position = 2
      and acc = "[TextContent ''a '']" and r = headerRe and n = 0 and s = "''## Title''"
      and x = "Inl (Inl (defaultOptions, [], 0, None))"
      and y = "Inl (Inl (0, defaultOptions, [], 0, None))"
      and opts = defaultOptions and lines = "[]" and i = 0 and rows = "[]" and ns = "[]"
      and es = "[]" and stack = 2 and markdown = "joinLines [''[-- a'', ''['', ''x'']"
      and title = None and type = div_type and config = "[]"
      and p = headerRe and g = 2 and mt = ?mt]
  from inst h have "parseS 2 defaultOptions (joinLines [''[-- a'', ''['', ''x''])
      = Inr (parse defaultOptions (joinLines [''[-- a'', ''['', ''x'']))"
    by blast
  then have 1: "parseS 2 defaultOptions (joinLines [''[-- a'', ''['', ''x''])
       = Inr \<lparr>nodes = [Card (Some [TextContent ''a'']) [Div None [Text [TextContent ''x'']]]],
               errors = None\<rparr>"
    by (simp only: p)
  from inst g mt have 2: "group ?mt 2 \<noteq> None" by blast
  from inst have 3: "2 < fst (inlineStep ''a _b'' 2 [TextContent ''a ''])" by blast
  from h 1 o g mt 2 3 show ?thesis by (intro conjI)
qed

text \<open>
  C1 as the claim states it fails: a stack with room for three nested calls overflows on
  four nested div openers, and one with room for 100000 on 100001, while the parser
  without a stack returns the four nested divs.
\<close>

theorem parse_stack_overflow_counterexample:
  "parseS 3 defaultOptions (joinLines [''['', ''['', ''['', ''['']) = Inl RangeError
   \<and> parseS 100000 defaultOptions (joinLines (replicate 100001 ''['')) = Inl RangeError
   \<and> parse defaultOptions (joinLines [''['', ''['', ''['', ''[''])
       = \<lparr>nodes = [Div None [Div None [Div None [Div None []]]]], errors = None\<rparr>"
proof -
  have 1: "parseS 3 defaultOptions (joinLines [''['', ''['', ''['', ''['']) = Inl RangeError"
    by code_simp
  have 2: "parseS 100000 defaultOptions (joinLines (replicate 100001 ''['')) = Inl RangeError"
    using deep_nesting_overflows [where stack = 100000 and opts = defaultOptions] by simp
  have 3: "parse defaultOptions (joinLines [''['', ''['', ''['', ''[''])
       = \<lparr>nodes = [Div None [Div None [Div None [Div None []]]]], errors = None\<rparr>"
    by code_simp
  from 1 2 3 show ?thesis by (intro conjI)
qed

text \<open>
  C2. The claim: \<^verbatim>\<open>[(Next) -> step2]\<close> is one default button with content
  \<^verbatim>\<open>Next\<close> and navigation target \<^verbatim>\<open>step2\<close>, and \<^verbatim>\<open>[Back -> step1]\<close> is one
  outline button with content \<^verbatim>\<open>Back\<close> and target \<^verbatim>\<open>step1\<close>. The patterns of
  \<open>parseLine\<close> know no arrow: both lines come out as outline buttons whose content is
  the whole text between the brackets, with no navigation target.
\<close>

theorem button_navigation_is_not_parsed:
  "parse defaultOptions ''[(Next) -> step2]''
     = \<lparr>nodes = [Button ''(Next) -> step2'' outline None None], errors = None\<rparr>
   \<and> parse defaultOptions ''[Back -> step1]''
     = \<lparr>nodes = [Button ''Back -> step1'' outline None None], errors = None\<rparr>
   \<and> map navigateTo (nodes (parse defaultOptions ''[(Next) -> step2]'')) = [None]"
  by code_simp

text \<open>
  C3. The claim: a workflow block with the screens a, b and c yields a workflow node whose
  initial screen is a. \<open>parse\<close> has no rule for \<^verbatim>\<open>[workflow\<close> or \<^verbatim>\<open>[screen\<close>: both
  openers are read as plain div openers with a class name, and the result is a div of
  divs.
\<close>

theorem workflow_is_parsed_as_div:
  "parse defaultOptions (joinLines
     [''[workflow'',
      ''  [screen a'', ''    # A'', ''  ]'',
      ''  [screen b'', ''    # B'', ''  ]'',
      ''  [screen c'', ''    # C'', ''  ]'',
      '']''])
   = \<lparr>nodes =
        [Div (Some ''workflow'')
           [Div (Some ''screen a'') [Header 1 [TextContent ''A'']],
            Div (Some ''screen b'') [Header 1 [TextContent ''B'']],
            Div (Some ''screen c'') [Header 1 [TextContent ''C'']]]],
      errors = None\<rparr>"
  by code_simp

text \<open>
  C4, as amended. At a line that is not blank, the loop of \<open>parse\<close> starts a table exactly
  when the trimmed line begins with \<^verbatim>\<open>|\<close>; no second \<^verbatim>\<open>|\<close> is asked for, since the
  test \<^verbatim>\<open>line.includes("|")\<close> holds of every such line. The round then adds one table
  node: its headers are the trimmed, non-empty pieces of the line between the \<^verbatim>\<open>|\<close>;
  an optional next line that holds both \<^verbatim>\<open>-\<close> and \<^verbatim>\<open>|\<close> is skipped; its rows come
  from the lines that follow, as long as they are not blank and hold a \<^verbatim>\<open>|\<close>; and the
  loop goes on at the first line that fails this test. At any other line that is not
  blank the round adds one node that is not a table.
\<close>

theorem table_recognition:
  assumes "lineAt opts lines i \<noteq> []"
  shows "(startsWith (trim (lineAt opts lines i)) ''|'' \<longrightarrow>
            parseStep opts lines i ns es =
              (skipSeparator opts lines (i + 1) + length (tableRowLines opts lines i),
               ns @ [Table (cells (lineAt opts lines i)) (map cells (tableRowLines opts lines i))],
               es))
    \<and> (\<not> startsWith (trim (lineAt opts lines i)) ''|'' \<longrightarrow>
            (\<exists>j n. parseStep opts lines i ns es = (j, ns @ [n], es) \<and> nodeType n \<noteq> table))
    \<and> (\<forall>h \<in> set (cells (lineAt opts lines i)). h \<noteq> [] \<and> trim h = h)"
  using parseStep_table [OF assms] parseStep_not_table [OF assms] splitTrim_entries
  by blast

theorem table_recognition_witness:
  "lineAt defaultOptions [''| Name | Age |'', ''|------|-----|'', ''| John | 30 |'', ''Not a row''] 0 \<noteq> []
   \<and> startsWith (trim (lineAt defaultOptions
         [''| Name | Age |'', ''|------|-----|'', ''| John | 30 |'', ''Not a row''] 0)) ''|''
   \<and> parseStep defaultOptions
         [''| Name | Age |'', ''|------|-----|'', ''| John | 30 |'', ''Not a row''] 0 [] []
       = (3, [Table [''Name'', ''Age''] [[''John'', ''30'']]], [])"
proof -
  let ?L = "[''| Name | Age |'', ''|------|-----|'', ''| John | 30 |'', ''Not a row'']"
  have h1: "lineAt defaultOptions ?L 0 \<noteq> []" by code_simp
  have h2: "startsWith (trim (lineAt defaultOptions ?L 0)) ''|''" by code_simp
  have e: "(skipSeparator defaultOptions ?L (0 + 1) + length (tableRowLines defaultOptions ?L 0),
            [] @ [Table (cells (lineAt defaultOptions ?L 0))
                    (map cells (tableRowLines defaultOptions ?L 0))],
            [] :: string list)
      = (3, [Table [''Name'', ''Age''] [[''John'', ''30'']]], [])"
    by code_simp
  from table_recognition [OF h1, of "[]" "[]"] h2
  have "parseStep defaultOptions ?L 0 [] []
      = (skipSeparator defaultOptions ?L (0 + 1) + length (tableRowLines defaultOptions ?L 0),
         [] @ [Table (cells (lineAt defaultOptions ?L 0))
                 (map cells (tableRowLines defaultOptions ?L 0))],
         [])"
    by blast
  with e have "parseStep defaultOptions ?L 0 [] []
      = (3, [Table [''Name'', ''Age''] [[''John'', ''30'']]], [])"
    by (simp only:)
  with h1 h2 show ?thesis by (simp only: simp_thms)
qed

theorem table_single_pipe_counterexample:
  "length (filter (\<lambda>c. c = CHR ''|'') ''| a'') = 1
   \<and> nodes (parse defaultOptions ''| a'') = [Table [''a''] []]"
  by code_simp

text \<open>
  C5, as amended. The header rule is tested first, so the claim is about a line that is
  not a header. The markers of a line are counted as \<open>parseLine\<close> counts them: the
  matches of the field pattern (a label, white space, a marker), found from left to right
  and never overlapping. With two or more matches the result is a container whose
  children are the nodes of the matches, one for each and in their order. With at most
  one match the field is never wrapped: a container is returned only by the rule for
  two or more bracketed buttons, and holds buttons; and a line that one of the
  single-field patterns matches yields a bare leaf node. The claim as stated fails on
  \<^verbatim>\<open># a ___ b ___\<close>, a header, and on \<^verbatim>\<open>[a ___][b]\<close>, a container of two buttons.
\<close>

theorem multi_field_grouping:
  assumes "match line headerRe = None"
  shows "(2 \<le> length (matchAll line fieldPattern) \<longrightarrow>
            parseLine line = Some (Container (map fieldNode (matchAll line fieldPattern))))
    \<and> sorted_wrt (\<lambda>a b. index a + length (whole a) \<le> index b) (matchAll line fieldPattern)
    \<and> (length (matchAll line fieldPattern) \<le> 1 \<longrightarrow>
          (\<forall>cs. parseLine line = Some (Container cs) \<longrightarrow> (\<forall>c \<in> set cs. nodeType c = button)))
    \<and> (length (matchAll line fieldPattern) \<le> 1 \<and> singleFieldLine line \<longrightarrow>
          (\<exists>n. parseLine line = Some n \<and> isLeaf n))"
proof -
  have "\<forall>c \<in> set cs. nodeType c = button"
    if "length (matchAll line fieldPattern) \<le> 1" "parseLine line = Some (Container cs)" for cs
    using parseLine_container_buttons [OF that] by (auto simp: buttonNode_type)
  then show ?thesis
    using parseLine_fields [OF assms] matchAll_sorted [of line fieldPattern]
      parseLine_single_field [OF assms]
    by blast
qed

theorem multi_field_grouping_witness:
  "match ''Name ___ City __> [a, b] Pw __*'' headerRe = None
   \<and> length (matchAll ''Name ___ City __> [a, b] Pw __*'' fieldPattern) = 3
   \<and> parseLine ''Name ___ City __> [a, b] Pw __*''
       = Some (Container [Input ''Name'' text_input, Dropdown ''City'' (Some [''a'', ''b'']),
                          Input ''Pw'' password])"
proof -
  have h: "match ''Name ___ City __> [a, b] Pw __*'' headerRe = None" by code_simp
  have n: "length (matchAll ''Name ___ City __> [a, b] Pw __*'' fieldPattern) = 3" by code_simp
  have e: "map fieldNode (matchAll ''Name ___ City __> [a, b] Pw __*'' fieldPattern)
      = [Input ''Name'' text_input, Dropdown ''City'' (Some [''a'', ''b'']), Input ''Pw'' password]"
    by code_simp
  from multi_field_grouping [OF h] n
  have "parseLine ''Name ___ City __> [a, b] Pw __*''
      = Some (Container (map fieldNode (matchAll ''Name ___ City __> [a, b] Pw __*'' fieldPattern)))"
    by simp
  with e have "parseLine ''Name ___ City __> [a, b] Pw __*''
      = Some (Container [Input ''Name'' text_input, Dropdown ''City'' (Some [''a'', ''b'']),
                         Input ''Pw'' password])"
    by (simp only:)
  with h n show ?thesis by (simp only: simp_thms)
qed

theorem multi_field_counterexample:
  "length (matchAll ''# a ___ b ___'' fieldPattern) = 2
   \<and> parseLine ''# a ___ b ___''
       = Some (Header 1 [TextContent ''a '', Italic ''_'', TextContent '' b '', Italic ''_''])
   \<and> length (matchAll ''[a ___][b]'' fieldPattern) = 1
   \<and> parseLine ''[a ___][b]''
       = Some (Container [Button ''a ___'' outline None None, Button ''b'' outline None None])"
  by code_simp

text \<open>
  C6, as amended. The claim: \<^verbatim>\<open>_*X*_\<close> always yields one bold node with one italic
  child of content \<^verbatim>\<open>X\<close>. The tokenizer does so exactly when \<^verbatim>\<open>X\<close> is not empty,
  holds no line terminator and holds no \<^verbatim>\<open>*_\<close> after its first character: the group
  \<^verbatim>\<open>(.+?)\<close> needs one character, its \<^verbatim>\<open>.\<close> reads no line terminator, and it stops
  at the first \<^verbatim>\<open>*_\<close>. (Strings of the model hold the code units below 256, of which
  line feed and carriage return are line terminators.) The second half of the claim
  stands: \<^verbatim>\<open>Some _italic_ and *bold* text\<close> yields five inline nodes in the order of the
  source.
\<close>

theorem emphasis_tokens:
  "(parseInlineEmphasis (''_*'' @ X @ ''*_'') = [BoldChildren [Italic X]]
      \<longleftrightarrow> X \<noteq> [] \<and> (\<forall>x \<in> set X. \<not> isLineTerminator x) \<and> \<not> holdsStarUnder (tl X))
   \<and> parseInlineEmphasis ''Some _italic_ and *bold* text''
     = [TextContent ''Some '', Italic ''italic'', TextContent '' and '', Bold ''bold'',
        TextContent '' text'']"
proof -
  have "parseInlineEmphasis ''Some _italic_ and *bold* text''
     = [TextContent ''Some '', Italic ''italic'', TextContent '' and '', Bold ''bold'',
        TextContent '' text'']"
    by code_simp
  then show ?thesis
    using boldItalic_tokens_iff [of X] by blast
qed

theorem emphasis_tokens_witness:
  "''a*b'' \<noteq> [] \<and> list_all (\<lambda>x. \<not> isLineTerminator x) ''a*b'' \<and> \<not> holdsStarUnder (tl ''a*b'')
   \<and> parseInlineEmphasis ''_*a*b*_'' = [BoldChildren [Italic ''a*b'']]"
proof -
  have h: "list_all (\<lambda>x. \<not> isLineTerminator x) ''a*b''" by code_simp
  then have all: "\<forall>x \<in> set ''a*b''. \<not> isLineTerminator x"
    by (simp only: list_all_iff)
  have no: "\<not> holdsStarUnder (tl ''a*b'')" by code_simp
  from emphasis_tokens [of "''a*b''"] all no
  have "parseInlineEmphasis (''_*'' @ ''a*b'' @ ''*_'') = [BoldChildren [Italic ''a*b'']]"
    by blast
  with h no show ?thesis by simp
qed

text \<open>
  C6 as the claim states it fails for the empty content, for a content that holds
  \<^verbatim>\<open>*_\<close> after its first character, and for a content with a line feed.
\<close>

theorem emphasis_tokens_counterexample:
  "parseInlineEmphasis (''_*'' @ [] @ ''*_'') = [Italic ''**'']
   \<and> parseInlineEmphasis (''_*'' @ ''a*_b'' @ ''*_'')
       = [BoldChildren [Italic ''a''], TextContent ''b'', TextContent ''*'', TextContent ''_'']
   \<and> parseInlineEmphasis (''_*'' @ [CHR ''a'', CHR 0x0A, CHR ''b''] @ ''*_'')
       = [TextContent ''_'', TextContent ''*'', TextContent [CHR ''a'', CHR 0x0A, CHR ''b''],
          TextContent ''*'', TextContent ''_'']
   \<and> parseInlineEmphasis (''_*'' @ [] @ ''*_'') \<noteq> [BoldChildren [Italic []]]
   \<and> parseInlineEmphasis (''_*'' @ ''a*_b'' @ ''*_'') \<noteq> [BoldChildren [Italic ''a*_b'']]"
  by code_simp



text \<open>
  C8. \<open>parseLine\<close> returns a node for every line, never \<^verbatim>\<open>null\<close>; so the branch of
  \<open>parse\<close> that records a message in strict mode is never taken, and \<open>parse\<close> returns no
  list of errors, whatever the options and the input.
\<close>

theorem classifier_total_no_errors:
  "parseLine line \<noteq> None \<and> errors (parse opts markdown) = None"
  by (simp add: parseLine_total parse_def Let_def parseLoop_errors)

text \<open>
  C9, as amended. A radiogroup node comes from the radio-group pattern only, whose
  bracketed list is mandatory; its options are the text between the brackets, split at
  the commas, every entry trimmed, the empty entries dropped. So every entry of the list
  is non-empty and trimmed. The list itself can be empty, against the claim: between the
  brackets of \<^verbatim>\<open>Pick __() [,]\<close> there are only empty entries.
\<close>

theorem radiogroup_options:
  assumes "parseLine line = Some (Radiogroup label opts)"
  shows "(\<exists>mt. match line radioGroupRe = Some mt \<and> label = gstr mt 1
            \<and> opts = splitTrim CHR '','' (gstr mt 2))
    \<and> (\<forall>opt \<in> set opts. opt \<noteq> [] \<and> trim opt = opt)"
proof -
  from parseLine_radiogroup [OF assms] obtain mt where
    mt: "match line radioGroupRe = Some mt" "label = gstr mt 1"
      "opts = splitTrim CHR '','' (gstr mt 2)"
    by blast
  then have "\<forall>opt \<in> set opts. opt \<noteq> [] \<and> trim opt = opt"
    using splitTrim_entries by blast
  with mt show ?thesis by blast
qed

theorem radiogroup_options_witness:
  "parseLine ''Size __() [S, M , L]'' = Some (Radiogroup ''Size'' [''S'', ''M'', ''L''])
   \<and> list_all (\<lambda>opt. opt \<noteq> [] \<and> trim opt = opt) [''S'', ''M'', ''L'']"
proof -
  have p: "parseLine ''Size __() [S, M , L]'' = Some (Radiogroup ''Size'' [''S'', ''M'', ''L''])"
    by code_simp
  from radiogroup_options [OF p]
  have "\<forall>opt \<in> set [''S'', ''M'', ''L'']. opt \<noteq> [] \<and> trim opt = opt"
    by blast
  then have "list_all (\<lambda>opt. opt \<noteq> [] \<and> trim opt = opt) [''S'', ''M'', ''L'']"
    by (simp only: list_all_iff)
  with p show ?thesis by (simp only: simp_thms)
qed

theorem radiogroup_empty_options_counterexample:
  "parseLine ''Pick __() [,]'' = Some (Radiogroup ''Pick'' [])
   \<and> nodes (parse defaultOptions ''Pick __() [,]'') = [Radiogroup ''Pick'' []]"
  by code_simp

text \<open>
  C10, as amended. A line that begins with seven or more \<^verbatim>\<open>#\<close> is never a header: the
  header pattern fails on it, and no later rule of \<open>parseLine\<close> builds a header. The line
  is classified by the later rules; when none of them applies, the result is the text
  node whose children are the inline tokens of the whole line. The claim as stated, that
  the result is always that text node, fails where a later rule applies: the line
  \<^verbatim>\<open>####### a ___\<close> is a text input.
\<close>

theorem seven_hashes_never_header:
  assumes "startsWith line ''#######''"
  shows "match line headerRe = None
    \<and> (\<forall>node. parseLine line = Some node \<longrightarrow> nodeType node \<noteq> header)
    \<and> (noLaterRule line \<longrightarrow> parseLine line = Some (Text (parseInlineEmphasis line)))"
  using header_fails [OF assms] parseLine_header [of line] parseLine_fallback [of line]
  by blast

theorem seven_hashes_never_header_witness:
  "startsWith ''####### Title'' ''#######'' \<and> noLaterRule ''####### Title''
   \<and> match ''####### Title'' headerRe = None
   \<and> parseLine ''####### Title'' = Some (Text [TextContent ''####### Title''])"
proof -
  have h: "startsWith ''####### Title'' ''#######''" by code_simp
  have n: "noLaterRule ''####### Title''" by code_simp
  have t: "parseInlineEmphasis ''####### Title'' = [TextContent ''####### Title'']" by code_simp
  from seven_hashes_never_header [OF h] n t
  have "match ''####### Title'' headerRe = None
    \<and> parseLine ''####### Title'' = Some (Text [TextContent ''####### Title''])"
    by (simp only: simp_thms)
  with h n show ?thesis by (simp only: simp_thms)
qed

theorem seven_hashes_counterexample:
  "startsWith ''####### a ___'' ''#######''
   \<and> parseLine ''####### a ___'' = Some (Input ''####### a'' text_input)
   \<and> parseLine ''####### a ___'' \<noteq> Some (Text (parseInlineEmphasis ''####### a ___''))"
  by code_simp

end
